theory Spec2Isabelle
  imports Main "HOL-Library.Word"
begin

unbundle bit_operations_syntax

section \<open>JavaScript strings\<close>

text \<open>
  A JavaScript string is a sequence of UTF-16 code units; \<open>s.length\<close> counts code units.
  The literal \<open>js ''abc''\<close> is the string of the ASCII characters a, b, c.
\<close>

type_synonym jschar = "16 word"
type_synonym jsstring = "jschar list"

definition js :: "string \<Rightarrow> jsstring" where
  "js s = map of_char s"

definition LF :: jschar where "LF = 0x0A"
definition CR :: jschar where "CR = 0x0D"

text \<open>\<open>xs.join('\n')\<close>\<close>

fun join :: "jsstring list \<Rightarrow> jsstring" where
  "join [] = []"
| "join [l] = l"
| "join (l # m # ls) = l @ LF # join (m # ls)"

text \<open>\<open>xs.slice(a, b)\<close> for \<open>0 \<le> a\<close>, \<open>0 \<le> b\<close>.\<close>

definition slice :: "nat \<Rightarrow> nat \<Rightarrow> 'a list \<Rightarrow> 'a list" where
  "slice a b xs = take (b - a) (drop a xs)"

text \<open>
  \<open>text.split(/\r?\n/)\<close>: the separator is a line feed, with the carriage return
  before it when there is one. The empty string splits into one empty line.
\<close>

definition cons_first :: "jschar \<Rightarrow> jsstring list \<Rightarrow> jsstring list" where
  "cons_first c ls = (case ls of [] \<Rightarrow> [[c]] | l # ls' \<Rightarrow> (c # l) # ls')"

fun split_lines :: "jsstring \<Rightarrow> jsstring list" where
  "split_lines [] = [[]]"
| "split_lines [c] = (if c = LF then [[], []] else [[c]])"
| "split_lines (c # d # cs) =
     (if c = CR \<and> d = LF then [] # split_lines cs
      else if c = LF then [] # split_lines (d # cs)
      else cons_first c (split_lines (d # cs)))"

text \<open>\<open>xs.filter(p)[0]\<close>: the first element that satisfies \<open>p\<close>, or \<open>undefined\<close>.\<close>

definition first_where :: "('a \<Rightarrow> bool) \<Rightarrow> 'a list \<Rightarrow> 'a option" where
  "first_where p xs = (case filter p xs of [] \<Rightarrow> None | x # _ \<Rightarrow> Some x)"

datatype js_error = TypeError

section \<open>Regular expressions\<close>

text \<open>
  The fragment of ECMAScript regular expressions that \<open>rmarkdown.ts\<close> uses: character
  classes, sequence, alternation, the greedy star, one capture group and the end anchor.
  A match state is the input still to read and the text captured by group 1. \<open>ms r st\<close>
  lists the states after \<open>r\<close> in the order a backtracking matcher tries them, so the head
  of the list is the match that JavaScript reports. An iteration of a star that reads
  nothing is dropped, as the standard prescribes.
\<close>

datatype rx = Cls "jschar \<Rightarrow> bool" | Seq rx rx | Alt rx rx | Star rx | Grp rx | Eol | Eps

type_synonym mstate = "jsstring \<times> jsstring option"

fun star_it :: "(mstate \<Rightarrow> mstate list) \<Rightarrow> nat \<Rightarrow> mstate \<Rightarrow> mstate list" where
  "star_it f 0 st = [st]"
| "star_it f (Suc n) st =
     concat (map (\<lambda>st'. if length (fst st') < length (fst st) then star_it f n st' else []) (f st))
     @ [st]"

primrec ms :: "rx \<Rightarrow> mstate \<Rightarrow> mstate list" where
  "ms (Cls p) st = (case fst st of [] \<Rightarrow> [] | x # xs \<Rightarrow> if p x then [(xs, snd st)] else [])"
| "ms (Seq a b) st = concat (map (ms b) (ms a st))"
| "ms (Alt a b) st = ms a st @ ms b st"
| "ms (Star a) st = star_it (ms a) (length (fst st)) st"
| "ms (Grp a) st =
     map (\<lambda>st'. (fst st', Some (take (length (fst st) - length (fst st')) (fst st)))) (ms a st)"
| "ms Eol st = (if fst st = [] then [st] else [])"
| "ms Eps st = [st]"

definition ch :: "char \<Rightarrow> rx" where
  "ch c = Cls (\<lambda>x. x = of_char c)"

definition Plus :: "rx \<Rightarrow> rx" where
  "Plus r = Seq r (Star r)"

definition Opt :: "rx \<Rightarrow> rx" where
  "Opt r = Alt r Eps"

fun seqs :: "rx list \<Rightarrow> rx" where
  "seqs [] = Eps"
| "seqs (r # rs) = Seq r (seqs rs)"

definition lit :: "string \<Rightarrow> rx" where
  "lit s = seqs (map ch s)"

text \<open>The classes \<open>\s\<close>, \<open>\w\<close> and \<open>.\<close> (which leaves out the four line terminators).\<close>

definition is_s :: "jschar \<Rightarrow> bool" where
  "is_s c = (c \<in> {0x09, 0x0A, 0x0B, 0x0C, 0x0D, 0x20, 0xA0, 0x1680, 0x2028, 0x2029, 0x202F,
                 0x205F, 0x3000, 0xFEFF} \<or> (0x2000 \<le> c \<and> c \<le> 0x200A))"

definition is_w :: "jschar \<Rightarrow> bool" where
  "is_w c = ((0x41 \<le> c \<and> c \<le> 0x5A) \<or> (0x61 \<le> c \<and> c \<le> 0x7A) \<or> (0x30 \<le> c \<and> c \<le> 0x39)
             \<or> c = 0x5F)"

definition is_dot :: "jschar \<Rightarrow> bool" where
  "is_dot c = (c \<notin> {0x0A, 0x0D, 0x2028, 0x2029})"

text \<open>
  A regular expression that starts with \<open>^\<close> matches at the start of the text only;
  one without it matches at the first position where it can (\<open>rx_search\<close>).
\<close>

definition rx_match :: "rx \<Rightarrow> jsstring \<Rightarrow> mstate option" where
  "rx_match r text = (case ms r (text, None) of [] \<Rightarrow> None | st # _ \<Rightarrow> Some st)"

fun rx_search :: "rx \<Rightarrow> jsstring \<Rightarrow> bool" where
  "rx_search r [] = (rx_match r [] \<noteq> None)"
| "rx_search r (c # cs) = (rx_match r (c # cs) \<noteq> None \<or> rx_search r cs)"

text \<open>
  \<open>text.replace(/^...$/g, '$1')\<close> for an expression anchored at both ends: it matches
  the whole text or nothing, so the result is group 1, or the text itself when there is
  no match.
\<close>

definition replace_by_group :: "rx \<Rightarrow> jsstring \<Rightarrow> jsstring" where
  "replace_by_group r text =
     (case rx_match r text of
        None \<Rightarrow> text
      | Some (_, None) \<Rightarrow> []
      | Some (_, Some g) \<Rightarrow> g)"

text \<open>
  Three properties of an expression, for the proofs: every character it reads satisfies
  \<open>Q\<close>; it ends with the end anchor; every match of it reads the character \<open>c\<close>.
\<close>

fun rx_chars :: "(jschar \<Rightarrow> bool) \<Rightarrow> rx \<Rightarrow> bool" where
  "rx_chars Q (Cls p) = (\<forall>c. p c \<longrightarrow> Q c)"
| "rx_chars Q (Seq a b) = (rx_chars Q a \<and> rx_chars Q b)"
| "rx_chars Q (Alt a b) = (rx_chars Q a \<and> rx_chars Q b)"
| "rx_chars Q (Star a) = rx_chars Q a"
| "rx_chars Q (Grp a) = rx_chars Q a"
| "rx_chars Q Eol = True"
| "rx_chars Q Eps = True"

fun ends_eol :: "rx \<Rightarrow> bool" where
  "ends_eol (Seq Eol Eps) = True"
| "ends_eol (Seq a b) = ends_eol b"
| "ends_eol r = False"

fun needs :: "jschar \<Rightarrow> rx \<Rightarrow> bool" where
  "needs c (Cls p) = (\<forall>x. p x \<longrightarrow> x = c)"
| "needs c (Seq a b) = (needs c a \<or> needs c b)"
| "needs c (Alt a b) = (needs c a \<and> needs c b)"
| "needs c (Grp a) = needs c a"
| "needs c r = False"

section \<open>rmarkdown.ts: chunks of a document\<close>

text \<open>\<open>/^\s*```+\s*\{\w+\s*.*$/\<close>\<close>

definition rx_chunk_start :: rx where
  "rx_chunk_start =
     seqs [Star (Cls is_s), ch CHR 0x60, ch CHR 0x60, Plus (ch CHR 0x60), Star (Cls is_s),
           ch CHR ''{'', Plus (Cls is_w), Star (Cls is_s), Star (Cls is_dot), Eol]"

definition isChunkStartLine :: "jsstring \<Rightarrow> bool" where
  "isChunkStartLine text = (rx_match rx_chunk_start text \<noteq> None)"

text \<open>\<open>/^\s*```+\s*$/\<close>\<close>

definition rx_chunk_end :: rx where
  "rx_chunk_end =
     seqs [Star (Cls is_s), ch CHR 0x60, ch CHR 0x60, Plus (ch CHR 0x60), Star (Cls is_s), Eol]"

definition isChunkEndLine :: "jsstring \<Rightarrow> bool" where
  "isChunkEndLine text = (rx_match rx_chunk_end text \<noteq> None)"

text \<open>
  \<open>/^\s*```+\s*\{(\w+)\s*.*\}\s*$/\<close>. The case mapping of \<open>toLowerCase\<close> is a table of
  the JavaScript runtime; it is the parameter \<open>lc\<close>.
\<close>

definition rx_chunk_language :: rx where
  "rx_chunk_language =
     seqs [Star (Cls is_s), ch CHR 0x60, ch CHR 0x60, Plus (ch CHR 0x60), Star (Cls is_s),
           ch CHR ''{'', Grp (Plus (Cls is_w)), Star (Cls is_s), Star (Cls is_dot), ch CHR ''}'',
           Star (Cls is_s), Eol]"

definition getChunkLanguage :: "(jsstring \<Rightarrow> jsstring) \<Rightarrow> jsstring \<Rightarrow> jsstring" where
  "getChunkLanguage lc text = lc (replace_by_group rx_chunk_language text)"

text \<open>\<open>/^\s*```+\s*\{\w+\s*,?\s*(.*)\s*\}\s*$/\<close>\<close>

definition rx_chunk_options :: rx where
  "rx_chunk_options =
     seqs [Star (Cls is_s), ch CHR 0x60, ch CHR 0x60, Plus (ch CHR 0x60), Star (Cls is_s),
           ch CHR ''{'', Plus (Cls is_w), Star (Cls is_s), Opt (ch CHR '',''), Star (Cls is_s),
           Grp (Star (Cls is_dot)), Star (Cls is_s), ch CHR ''}'', Star (Cls is_s), Eol]"

definition getChunkOptions :: "jsstring \<Rightarrow> jsstring" where
  "getChunkOptions text = replace_by_group rx_chunk_options text"

text \<open>\<open>/eval\s*=\s*(F|FALSE)/\<close>\<close>

definition rx_eval_false :: rx where
  "rx_eval_false =
     seqs [lit ''eval'', Star (Cls is_s), ch CHR ''='', Star (Cls is_s),
           Grp (Alt (lit ''F'') (lit ''FALSE''))]"

definition getChunkEval :: "jsstring \<Rightarrow> bool" where
  "getChunkEval chunkOptions = (if rx_search rx_eval_false chunkOptions then False else True)"

text \<open>
  Positions and ranges of the editor. The constructor of a range orders its two ends.
\<close>

record Position =
  pos_line :: nat
  pos_character :: nat

definition isBefore :: "Position \<Rightarrow> Position \<Rightarrow> bool" where
  "isBefore a b =
     (pos_line a < pos_line b \<or> (pos_line a = pos_line b \<and> pos_character a < pos_character b))"

record Range =
  range_start :: Position
  range_end :: Position

definition new_Range :: "Position \<Rightarrow> Position \<Rightarrow> Range" where
  "new_Range a b =
     (if isBefore a b then \<lparr>range_start = a, range_end = b\<rparr>
      else \<lparr>range_start = b, range_end = a\<rparr>)"

record RMarkdownChunk =
  chunk_id :: int
  startLine :: nat
  endLine :: nat
  chunk_language :: jsstring
  chunk_options :: jsstring
  chunk_eval :: bool
  chunkRange :: Range
  codeRange :: Range

text \<open>
  The loop of \<open>getChunks\<close>. \<open>cur\<close> is \<open>None\<close> while \<open>chunkStartLine\<close> is undefined,
  and otherwise holds \<open>chunkStartLine\<close>, \<open>chunkLanguage\<close>, \<open>chunkOptions\<close> and
  \<open>chunkEval\<close> of the open chunk (the four are assigned together and read only while a
  chunk is open).
\<close>

function getChunks_loop ::
  "(jsstring \<Rightarrow> jsstring) \<Rightarrow> jsstring list \<Rightarrow> nat \<Rightarrow> int \<Rightarrow> (nat \<times> jsstring \<times> jsstring \<times> bool) option
     \<Rightarrow> RMarkdownChunk list \<Rightarrow> RMarkdownChunk list" where
  "getChunks_loop lc lines line chunkId cur chunks =
     (if line < length lines then
        (case cur of
           None \<Rightarrow>
             if isChunkStartLine (lines ! line) then
               getChunks_loop lc lines (line + 1) (chunkId + 1)
                 (Some (line, getChunkLanguage lc (lines ! line), getChunkOptions (lines ! line),
                        getChunkEval (getChunkOptions (lines ! line))))
                 chunks
             else getChunks_loop lc lines (line + 1) chunkId None chunks
         | Some (chunkStartLine, chunkLanguage, chunkOptions, chunkEval) \<Rightarrow>
             if isChunkEndLine (lines ! line) then
               getChunks_loop lc lines (line + 1) chunkId None
                 (chunks @
                  [\<lparr>chunk_id = chunkId, startLine = chunkStartLine, endLine = line,
                    chunk_language = chunkLanguage, chunk_options = chunkOptions,
                    chunk_eval = chunkEval,
                    chunkRange = new_Range \<lparr>pos_line = chunkStartLine, pos_character = 0\<rparr>
                                   \<lparr>pos_line = line, pos_character = length (lines ! line)\<rparr>,
                    codeRange = new_Range \<lparr>pos_line = chunkStartLine + 1, pos_character = 0\<rparr>
                                  \<lparr>pos_line = line - 1, pos_character = length (lines ! (line - 1))\<rparr>\<rparr>])
             else getChunks_loop lc lines (line + 1) chunkId cur chunks)
      else chunks)"
  by pat_completeness auto
termination
  by (relation "measure (\<lambda>(lc, lines, line, chunkId, cur, chunks). length lines - line)") auto

declare getChunks_loop.simps [simp del]

definition getChunks :: "(jsstring \<Rightarrow> jsstring) \<Rightarrow> jsstring \<Rightarrow> RMarkdownChunk list" where
  "getChunks lc text = getChunks_loop lc (split_lines text) 0 0 None []"

text \<open>
  The two upward scans of \<open>getCurrentChunk\<close>:
  \<open>while (i >= 0 && !p(lines[i])) i--\<close>, started at \<open>i = k - 1\<close>. A line beyond the end
  of the document is \<open>undefined\<close>, and \<open>p\<close> throws a TypeError on it.
\<close>

fun scan_up :: "(jsstring \<Rightarrow> bool) \<Rightarrow> jsstring list \<Rightarrow> nat \<Rightarrow> js_error + int" where
  "scan_up p lines 0 = Inr (- 1)"
| "scan_up p lines (Suc i) =
     (if length lines \<le> i then Inl TypeError
      else if p (lines ! i) then Inr (int i)
      else scan_up p lines i)"

text \<open>
  The downward scan: \<open>while (!isChunkStartLine(lines[i])) i++\<close> over the lines from
  \<open>i\<close> on; it throws when it runs off the end of the document.
\<close>

fun scan_down :: "jsstring list \<Rightarrow> nat \<Rightarrow> js_error + nat" where
  "scan_down [] i = Inl TypeError"
| "scan_down (l # ls) i = (if isChunkStartLine l then Inr i else scan_down ls (i + 1))"

text \<open>
  \<open>activeText\<close> is the text of the active editor's document. The result is the chunk
  found, which may be \<open>undefined\<close> (\<open>None\<close>).
\<close>

definition getCurrentChunk ::
  "jsstring \<Rightarrow> RMarkdownChunk list \<Rightarrow> nat \<Rightarrow> js_error + RMarkdownChunk option" where
  "getCurrentChunk activeText chunks line =
     (let lines = split_lines activeText in
      case scan_up isChunkStartLine lines (line + 1) of
        Inl e \<Rightarrow> Inl e
      | Inr chunkStartLineAtOrAbove \<Rightarrow>
          (case scan_up isChunkEndLine lines line of
             Inl e \<Rightarrow> Inl e
           | Inr chunkEndLineAbove \<Rightarrow>
               if chunkEndLineAbove < chunkStartLineAtOrAbove then
                 Inr (first_where (\<lambda>i. int (startLine i) = chunkStartLineAtOrAbove) chunks)
               else
                 (case scan_down (drop (line + 1) lines) (line + 1) of
                    Inl e \<Rightarrow> Inl e
                  | Inr chunkStartLineBelow \<Rightarrow>
                      Inr (first_where (\<lambda>i. startLine i = chunkStartLineBelow) chunks))))"

definition getPreviousChunk ::
  "jsstring \<Rightarrow> RMarkdownChunk list \<Rightarrow> nat \<Rightarrow> js_error + RMarkdownChunk option" where
  "getPreviousChunk activeText chunks line =
     (case getCurrentChunk activeText chunks line of
        Inl e \<Rightarrow> Inl e
      | Inr None \<Rightarrow> Inl TypeError
      | Inr (Some currentChunk) \<Rightarrow>
          (let previousChunkId =
                 (if endLine currentChunk < line then chunk_id currentChunk
                  else chunk_id currentChunk - 1)
           in Inr (first_where (\<lambda>i. chunk_id i = previousChunkId) chunks)))"

definition getNextChunk ::
  "jsstring \<Rightarrow> RMarkdownChunk list \<Rightarrow> nat \<Rightarrow> js_error + RMarkdownChunk option" where
  "getNextChunk activeText chunks line =
     (case getCurrentChunk activeText chunks line of
        Inl e \<Rightarrow> Inl e
      | Inr None \<Rightarrow> Inl TypeError
      | Inr (Some currentChunk) \<Rightarrow>
          (let nextChunkId =
                 (if line < startLine currentChunk then chunk_id currentChunk
                  else chunk_id currentChunk + 1)
           in Inr (first_where (\<lambda>i. chunk_id i = nextChunkId) chunks)))"

text \<open>
  The loop shared by the run commands: for each id \<open>i\<close> in turn,
  \<open>chunk = chunks.filter(e => e.id === i)[0]; codeRanges.push(chunk.codeRange)\<close>.
  Reading \<open>codeRange\<close> of \<open>undefined\<close> throws.
\<close>

fun push_codeRanges :: "RMarkdownChunk list \<Rightarrow> int list \<Rightarrow> js_error + Range list" where
  "push_codeRanges chunks [] = Inr []"
| "push_codeRanges chunks (i # ids) =
     (case first_where (\<lambda>e. chunk_id e = i) chunks of
        None \<Rightarrow> Inl TypeError
      | Some chunk \<Rightarrow>
          (case push_codeRanges chunks ids of
             Inl e \<Rightarrow> Inl e
           | Inr codeRanges \<Rightarrow> Inr (codeRange chunk # codeRanges)))"

text \<open>
  Each run command is modelled by the list of ranges it hands to \<open>runChunksInTerm\<close>,
  or the error it throws before.
\<close>

definition runCurrentChunk :: "jsstring \<Rightarrow> RMarkdownChunk list \<Rightarrow> nat \<Rightarrow> js_error + Range list" where
  "runCurrentChunk activeText chunks line =
     (case getCurrentChunk activeText chunks line of
        Inl e \<Rightarrow> Inl e
      | Inr None \<Rightarrow> Inl TypeError
      | Inr (Some currentChunk) \<Rightarrow> Inr [codeRange currentChunk])"

definition runAboveChunks :: "jsstring \<Rightarrow> RMarkdownChunk list \<Rightarrow> nat \<Rightarrow> js_error + Range list" where
  "runAboveChunks activeText chunks line =
     (case getPreviousChunk activeText chunks line of
        Inl e \<Rightarrow> Inl e
      | Inr None \<Rightarrow> Inl TypeError
      | Inr (Some previousChunk) \<Rightarrow> push_codeRanges chunks [1 .. chunk_id previousChunk])"

definition runBelowChunks :: "jsstring \<Rightarrow> RMarkdownChunk list \<Rightarrow> nat \<Rightarrow> js_error + Range list" where
  "runBelowChunks activeText chunks line =
     (case getNextChunk activeText chunks line of
        Inl e \<Rightarrow> Inl e
      | Inr None \<Rightarrow> Inl TypeError
      | Inr (Some nextChunk) \<Rightarrow>
          push_codeRanges chunks [chunk_id nextChunk .. int (length chunks)])"

definition runCurrentAndBelowChunks ::
  "jsstring \<Rightarrow> RMarkdownChunk list \<Rightarrow> nat \<Rightarrow> js_error + Range list" where
  "runCurrentAndBelowChunks activeText chunks line =
     (case getCurrentChunk activeText chunks line of
        Inl e \<Rightarrow> Inl e
      | Inr None \<Rightarrow> Inl TypeError
      | Inr (Some currentChunk) \<Rightarrow>
          push_codeRanges chunks [chunk_id currentChunk .. int (length chunks)])"

definition runAllChunks :: "RMarkdownChunk list \<Rightarrow> js_error + Range list" where
  "runAllChunks chunks = push_codeRanges chunks [1 .. int (length chunks)]"

text \<open>The restriction of \<open>toLowerCase\<close> to ASCII letters, for concrete examples.\<close>

definition ascii_lower :: "jsstring \<Rightarrow> jsstring" where
  "ascii_lower s = map (\<lambda>c. if 0x41 \<le> c \<and> c \<le> 0x5A then c + 0x20 else c) s"

text \<open>
  What the scan of \<open>getChunks\<close> keeps true: \<open>chunks_ok\<close> of the chunks pushed so far,
  and \<open>chunks_inv\<close> of the whole loop state at line \<open>line\<close>.
\<close>

definition chunks_ok :: "RMarkdownChunk list \<Rightarrow> bool" where
  "chunks_ok chunks =
     (map chunk_id chunks = [1 .. int (length chunks)]
      \<and> (\<forall>c \<in> set chunks. startLine c < endLine c)
      \<and> sorted_wrt (\<lambda>a b. endLine a < startLine b) chunks)"

definition chunks_inv ::
  "nat \<Rightarrow> int \<Rightarrow> (nat \<times> jsstring \<times> jsstring \<times> bool) option \<Rightarrow> RMarkdownChunk list \<Rightarrow> bool" where
  "chunks_inv line chunkId cur chunks =
     (chunks_ok chunks
      \<and> (\<forall>c \<in> set chunks. endLine c < line)
      \<and> (case cur of
           None \<Rightarrow> chunkId = int (length chunks)
         | Some (s, _) \<Rightarrow> chunkId = int (length chunks) + 1 \<and> s < line
                          \<and> (\<forall>c \<in> set chunks. endLine c < s)))"

text \<open>A document of two chunks, the second with an empty body.\<close>

definition two_chunks :: jsstring where
  "two_chunks = js ''```{r}'' @ [LF] @ js ''1'' @ [LF] @ js ''```'' @ [LF] @ js ''```{r}'' @ [LF] @ js ''```''"

text \<open>
  What the scan of \<open>getChunks\<close> knows of the lines of a chunk: the chunk starts on a
  chunk start line, ends within the document on a chunk end line, and no line strictly
  between its start and its end is a chunk end line.
\<close>

definition chunk_lines :: "jsstring list \<Rightarrow> RMarkdownChunk \<Rightarrow> bool" where
  "chunk_lines lines c =
     (endLine c < length lines \<and> isChunkStartLine (lines ! startLine c)
      \<and> isChunkEndLine (lines ! endLine c)
      \<and> (\<forall>m. startLine c < m \<and> m < endLine c \<longrightarrow> \<not> isChunkEndLine (lines ! m)))"

definition lines_inv ::
  "jsstring list \<Rightarrow> nat \<Rightarrow> (nat \<times> jsstring \<times> jsstring \<times> bool) option \<Rightarrow> RMarkdownChunk list \<Rightarrow> bool" where
  "lines_inv lines line cur chunks =
     ((\<forall>c \<in> set chunks. chunk_lines lines c)
      \<and> (case cur of
           None \<Rightarrow> True
         | Some (s, _) \<Rightarrow> isChunkStartLine (lines ! s)
                          \<and> (\<forall>m. s < m \<and> m < line \<longrightarrow> \<not> isChunkEndLine (lines ! m))))"

text \<open>
  Where the chunk start lines of a document are: every one of them lies within a chunk,
  from its start line to its end line, or below the end of every chunk (a chunk that is
  opened and never closed is not in the list). \<open>starts_inv\<close> is what the loop keeps
  true for the lines above \<open>line\<close>.
\<close>

definition starts_inv ::
  "jsstring list \<Rightarrow> nat \<Rightarrow> (nat \<times> jsstring \<times> jsstring \<times> bool) option \<Rightarrow> RMarkdownChunk list \<Rightarrow> bool" where
  "starts_inv lines line cur chunks =
     ((\<forall>m < line. isChunkStartLine (lines ! m) \<longrightarrow>
         (\<exists>c \<in> set chunks. startLine c \<le> m \<and> m \<le> endLine c)
         \<or> (case cur of None \<Rightarrow> False | Some (s, _) \<Rightarrow> s \<le> m))
      \<and> (case cur of None \<Rightarrow> \<forall>c \<in> set chunks. endLine c < line
          | Some (s, _) \<Rightarrow> s < line \<and> (\<forall>c \<in> set chunks. endLine c < s)))"

definition starts_ok :: "jsstring list \<Rightarrow> RMarkdownChunk list \<Rightarrow> bool" where
  "starts_ok lines chunks =
     (\<forall>m < length lines. isChunkStartLine (lines ! m) \<longrightarrow>
        (\<exists>c \<in> set chunks. startLine c \<le> m \<and> m \<le> endLine c)
        \<or> (\<forall>c \<in> set chunks. endLine c < m))"

text \<open>
  A document of ten lines, 0 to 9, with two chunks: lines 1 to 4, with \<open>eval=FALSE\<close> in
  the header and a second chunk start line on line 2, and lines 6 to 8. Lines 0, 5 and 9
  are outside the chunks.
\<close>

definition eval_doc :: jsstring where
  "eval_doc = js ''intro'' @ [LF] @ js ''```{r eval=FALSE}'' @ [LF] @ js ''```{r}'' @ [LF] @ js ''1'' @ [LF] @ js ''```'' @ [LF] @ js ''between'' @ [LF] @ js ''```{r}'' @ [LF] @ js ''2'' @ [LF] @ js ''```'' @ [LF] @ js ''outro''"

section \<open>rTerminal.ts: the wire format of a request\<close>

datatype req_type = Eval | Cancel

text \<open>
  \<open>RKernelRequest\<close>. The id is \<open>cell.metadata.executionOrder\<close>, which is undefined
  until the cell has run once; \<open>expr\<close> is absent from a cancel request.
\<close>

record RKernelRequest =
  req_id :: "nat option"
  req_type :: req_type
  req_expr :: "jsstring option"

text \<open>The decimal digits of a number, as a template literal and \<open>JSON.stringify\<close> print it.\<close>

fun digits :: "nat \<Rightarrow> jsstring" where
  "digits n = (if n < 10 then [of_nat (48 + n)] else digits (n div 10) @ [of_nat (48 + n mod 10)])"

declare digits.simps [simp del]

definition is_high :: "jschar \<Rightarrow> bool" where
  "is_high c = (0xD800 \<le> c \<and> c \<le> 0xDBFF)"

definition is_low :: "jschar \<Rightarrow> bool" where
  "is_low c = (0xDC00 \<le> c \<and> c \<le> 0xDFFF)"

definition hex_digit :: "jschar \<Rightarrow> jschar" where
  "hex_digit d = (if d < 10 then 0x30 + d else 0x57 + d)"

definition unicode_escape :: "jschar \<Rightarrow> jsstring" where
  "unicode_escape c =
     [0x5C, 0x75, hex_digit (drop_bit 12 c AND 0xF), hex_digit (drop_bit 8 c AND 0xF),
      hex_digit (drop_bit 4 c AND 0xF), hex_digit (c AND 0xF)]"

text \<open>
  \<open>JSON.stringify\<close> of a string (QuoteJSONString of the standard): the quote, the backslash
  and the control characters are escaped, a surrogate without its partner is written
  \<open>\uXXXX\<close>, and every other code unit stands for itself, whether ASCII or not.
\<close>

definition quote_unit :: "jschar \<Rightarrow> jsstring" where
  "quote_unit c =
     (if c = 0x08 then [0x5C, 0x62]
      else if c = 0x09 then [0x5C, 0x74]
      else if c = 0x0A then [0x5C, 0x6E]
      else if c = 0x0C then [0x5C, 0x66]
      else if c = 0x0D then [0x5C, 0x72]
      else if c = 0x22 then [0x5C, 0x22]
      else if c = 0x5C then [0x5C, 0x5C]
      else if c < 0x20 \<or> is_high c \<or> is_low c then unicode_escape c
      else [c])"

fun quote_units :: "jsstring \<Rightarrow> jsstring" where
  "quote_units [] = []"
| "quote_units [c] = quote_unit c"
| "quote_units (c # d # cs) =
     (if is_high c \<and> is_low d then c # d # quote_units cs
      else quote_unit c @ quote_units (d # cs))"

definition QuoteJSONString :: "jsstring \<Rightarrow> jsstring" where
  "QuoteJSONString s = [0x22] @ quote_units s @ [0x22]"

fun join_comma :: "jsstring list \<Rightarrow> jsstring" where
  "join_comma [] = []"
| "join_comma [a] = a"
| "join_comma (a # b # rest) = a @ js '','' @ join_comma (b # rest)"

text \<open>
  \<open>JSON.stringify(request)\<close>: the members in the order the object literal gives them,
  a member whose value is undefined left out.
\<close>

definition JSON_stringify :: "RKernelRequest \<Rightarrow> jsstring" where
  "JSON_stringify request =
     js ''{'' @
     join_comma
       ((case req_id request of
           None \<Rightarrow> []
         | Some n \<Rightarrow> [QuoteJSONString (js ''id'') @ js '':'' @ digits n]) @
        [QuoteJSONString (js ''type'') @ js '':'' @
           QuoteJSONString (case req_type request of Eval \<Rightarrow> js ''eval'' | Cancel \<Rightarrow> js ''cancel'')] @
        (case req_expr request of
           None \<Rightarrow> []
         | Some e \<Rightarrow> [QuoteJSONString (js ''expr'') @ js '':'' @ QuoteJSONString e]))
     @ js ''}''"

text \<open>
  The bytes that \<open>socket.write(string)\<close> sends: the UTF-8 encoding of the string. A
  surrogate pair is one code point of four bytes; a surrogate without its partner is
  replaced by U+FFFD.
\<close>

definition utf8_unit :: "jschar \<Rightarrow> 8 word list" where
  "utf8_unit c =
     (if c < 0x80 then [ucast c]
      else if c < 0x800 then [0xC0 OR ucast (drop_bit 6 c), 0x80 OR ucast (c AND 0x3F)]
      else if is_high c \<or> is_low c then [0xEF, 0xBF, 0xBD]
      else [0xE0 OR ucast (drop_bit 12 c), 0x80 OR ucast (drop_bit 6 c AND 0x3F),
            0x80 OR ucast (c AND 0x3F)])"

definition utf8_pair :: "jschar \<Rightarrow> jschar \<Rightarrow> 8 word list" where
  "utf8_pair h l =
     (let cp = (0x10000 :: 32 word) + push_bit 10 (ucast (h - 0xD800)) + ucast (l - 0xDC00)
      in [0xF0 OR ucast (drop_bit 18 cp), 0x80 OR ucast (drop_bit 12 cp AND 0x3F),
          0x80 OR ucast (drop_bit 6 cp AND 0x3F), 0x80 OR ucast (cp AND 0x3F)])"

fun utf8_encode :: "jsstring \<Rightarrow> 8 word list" where
  "utf8_encode [] = []"
| "utf8_encode [c] = utf8_unit c"
| "utf8_encode (c # d # cs) =
     (if is_high c \<and> is_low d then utf8_pair c d @ utf8_encode cs
      else utf8_unit c @ utf8_encode (d # cs))"

text \<open>
  The string that \<open>RKernel.request\<close> hands to \<open>socket.write\<close>:
  \<open>`Content-Length: ${json.length}\n${json}`\<close>.
\<close>

definition frame :: "RKernelRequest \<Rightarrow> jsstring" where
  "frame request =
     (let json = JSON_stringify request
      in js ''Content-Length: '' @ digits (length json) @ [LF] @ json)"

section \<open>rTerminal.ts: the kernel\<close>

type_synonym pid = nat
type_synonym sid = nat
type_synonym srvid = nat
type_synonym prid = nat

datatype resp_type = type_text | type_plot | type_viewer | type_browser | type_error

record RKernelResponse =
  resp_id :: nat
  resp_type :: resp_type
  resp_result :: jsstring

text \<open>
  Promises. A promise is pending, fulfilled with a value or rejected with one, and once
  settled it stays as it is. Each promise records which method of the kernel made it.
  The promise an async method returns is identified with the promise its body returns.
\<close>

datatype jsvalue = Undefined | Response RKernelResponse | Thrown js_error

datatype pstate = Pending | Fulfilled jsvalue | Rejected jsvalue

datatype origin = ByStart | ByEval

record promise =
  made_by :: origin
  p_state :: pstate

text \<open>
  What a \<open>data\<close> event carries, as \<open>JSON.parse(data.toString())\<close> reads it: a response,
  or text that is not JSON (on which \<open>JSON.parse\<close> throws).
\<close>

datatype incoming = Json RKernelResponse | NotJson

text \<open>
  What the kernel's callbacks close over. A server, a child process and a socket each
  remember the promise of the call of \<open>start\<close> that made them: the connection callback
  resolves it, the \<open>exit\<close> and \<open>end\<close> callbacks reject it.
\<close>

datatype server_state = Binding | Listening | Closed

record server =
  srv_promise :: prid
  srv_state :: server_state

record child =
  child_promise :: prid
  child_killed :: bool
  child_exited :: bool

text \<open>
  A socket is a readable stream. Until its first \<open>data\<close> listener is added it does not
  flow: the data that arrives is kept in its buffer. Adding a \<open>data\<close> listener makes the
  socket flow (\<open>resume()\<close>); what is buffered is then emitted on the next tick, to the
  listeners the socket has at that moment. Removing a listener does not pause the socket
  again, so data that reaches a flowing socket without listeners is lost.
\<close>

record sock =
  sock_promise :: prid
  sock_ended :: bool
  sock_flowing :: bool
  sock_buffer :: "incoming list"

datatype CellKind = Markdown | Code

datatype run_state = Running | Idle | Success | Failed

datatype errval = Message jsstring | ToString jsvalue

datatype CellOutput =
    OutputText jsstring
  | OutputRich jsstring jsstring
  | OutputError jsstring errval

record custom =
  header :: jsstring
  footer :: jsstring

text \<open>
  A cell of a notebook: \<open>source\<close> is \<open>cell.document.getText()\<close>; \<open>runnable\<close>, \<open>runState\<close>,
  \<open>executionOrder\<close> and \<open>custom\<close> are fields of \<open>cell.metadata\<close>. The two fields that
  hold clock readings (\<open>runStartTime\<close>, \<open>lastRunDuration\<close>) are left out.
\<close>

record NotebookCell =
  cellKind :: CellKind
  language :: jsstring
  source :: jsstring
  runnable :: bool
  runState :: "run_state option"
  executionOrder :: "nat option"
  custom :: "custom option"
  outputs :: "CellOutput list"

text \<open>
  \<open>RKernel\<close>: the fields \<open>process\<close>, \<open>port\<close> and \<open>socket\<close> of the class, and the objects
  the kernel has made so far: its servers, child processes and sockets (a handle is the
  index in the list), the \<open>data\<close> listeners in the order they were added (each is the
  handler of one call of \<open>eval\<close>, named by the promise it resolves), the strings written
  to sockets, and the promises.
\<close>

record RKernel =
  process :: "pid option"
  port :: "nat option"
  socket :: "sid option"
  servers :: "server list"
  children :: "child list"
  sockets :: "sock list"
  listeners :: "(sid \<times> prid) list"
  written :: "(sid \<times> jsstring) list"
  promises :: "promise list"

definition new_RKernel :: RKernel where
  "new_RKernel = \<lparr>process = None, port = None, socket = None, servers = [], children = [],
                   sockets = [], listeners = [], written = [], promises = []\<rparr>"

definition new_Promise :: "origin \<Rightarrow> RKernel \<Rightarrow> prid \<times> RKernel" where
  "new_Promise f k =
     (length (promises k), k\<lparr>promises := promises k @ [\<lparr>made_by = f, p_state = Pending\<rparr>]\<rparr>)"

text \<open>\<open>resolve(v)\<close> and \<open>reject(v)\<close>: no effect on a promise that has settled.\<close>

definition settle :: "prid \<Rightarrow> pstate \<Rightarrow> RKernel \<Rightarrow> RKernel" where
  "settle p v k =
     (if p < length (promises k) \<and> p_state (promises k ! p) = Pending
      then k\<lparr>promises := (promises k)[p := (promises k ! p)\<lparr>p_state := v\<rparr>]\<rparr>
      else k)"

definition request :: "RKernelRequest \<Rightarrow> RKernel \<Rightarrow> RKernel" where
  "request r k =
     (case socket k of
        None \<Rightarrow> k
      | Some s \<Rightarrow> k\<lparr>written := written k @ [(s, frame r)]\<rparr>)"

text \<open>
  \<open>start\<close>: with a process, it returns at once. Without one it makes a server and asks
  it to listen; the child process is spawned, and \<open>this.process\<close> assigned, only in the
  callback of \<open>listen\<close>.
\<close>

definition start :: "RKernel \<Rightarrow> prid \<times> RKernel" where
  "start k =
     (case process k of
        Some _ \<Rightarrow> (let (p, k1) = new_Promise ByStart k in (p, settle p (Fulfilled Undefined) k1))
      | None \<Rightarrow>
          (let (p, k1) = new_Promise ByStart k
           in (p, k1\<lparr>servers := servers k1 @ [\<lparr>srv_promise = p, srv_state = Binding\<rparr>]\<rparr>)))"

text \<open>
  The callback of \<open>server.listen\<close>, with the port \<open>n\<close> the server was given: it spawns
  the child process and stores it in \<open>this.process\<close>.
\<close>

definition on_listening :: "srvid \<Rightarrow> nat \<Rightarrow> RKernel \<Rightarrow> RKernel" where
  "on_listening srv n k =
     (if srv < length (servers k) \<and> srv_state (servers k ! srv) = Binding then
        k\<lparr>port := Some n,
          children := children k @
            [\<lparr>child_promise = srv_promise (servers k ! srv), child_killed = False,
              child_exited = False\<rparr>],
          process := Some (length (children k)),
          servers := (servers k)[srv := (servers k ! srv)\<lparr>srv_state := Listening\<rparr>]\<rparr>
      else k)"

text \<open>
  The callback of \<open>net.createServer\<close>, when the child connects: it stores the socket,
  resolves the promise of \<open>start\<close> and closes the server.
\<close>

definition on_connection :: "srvid \<Rightarrow> RKernel \<Rightarrow> RKernel" where
  "on_connection srv k =
     (if srv < length (servers k) \<and> srv_state (servers k ! srv) = Listening then
        settle (srv_promise (servers k ! srv)) (Fulfilled Undefined)
          (k\<lparr>socket := Some (length (sockets k)),
             sockets := sockets k @
               [\<lparr>sock_promise = srv_promise (servers k ! srv), sock_ended = False,
                 sock_flowing = False, sock_buffer = []\<rparr>],
             servers := (servers k)[srv := (servers k ! srv)\<lparr>srv_state := Closed\<rparr>]\<rparr>)
      else k)"

text \<open>
  The \<open>end\<close> listener of a socket. A stream emits \<open>end\<close> once, and only when all the
  data it received has been consumed.
\<close>

definition on_end :: "sid \<Rightarrow> RKernel \<Rightarrow> RKernel" where
  "on_end s k =
     (if s < length (sockets k) \<and> \<not> sock_ended (sockets k ! s)
         \<and> sock_buffer (sockets k ! s) = [] then
        settle (sock_promise (sockets k ! s)) (Rejected Undefined)
          (k\<lparr>socket := None, sockets := (sockets k)[s := (sockets k ! s)\<lparr>sock_ended := True\<rparr>]\<rparr>)
      else k)"

text \<open>The \<open>exit\<close> listener of a child process: it rejects the promise of \<open>start\<close>.\<close>

definition on_exit :: "pid \<Rightarrow> RKernel \<Rightarrow> RKernel" where
  "on_exit c k =
     (if c < length (children k) \<and> \<not> child_exited (children k ! c) then
        settle (child_promise (children k ! c)) (Rejected Undefined)
          (k\<lparr>children := (children k)[c := (children k ! c)\<lparr>child_exited := True\<rparr>]\<rparr>)
      else k)"

text \<open>
  The \<open>data\<close> listener that a call of \<open>eval\<close> adds; \<open>p\<close> is the promise of that call.
  It resolves the promise with whatever response the data holds and removes itself from
  the socket that \<open>this.socket\<close> names at that moment. The handler is an async function:
  what it throws (\<open>JSON.parse\<close> on other text, \<open>removeListener\<close> of an undefined socket)
  rejects a promise nobody reads.
\<close>

definition handler :: "prid \<Rightarrow> incoming \<Rightarrow> RKernel \<Rightarrow> RKernel" where
  "handler p d k =
     (case d of
        NotJson \<Rightarrow> k
      | Json response \<Rightarrow>
          (let k1 = settle p (Fulfilled (Response response)) k
           in case socket k1 of
                None \<Rightarrow> k1
              | Some cur \<Rightarrow> k1\<lparr>listeners := remove1 (cur, p) (listeners k1)\<rparr>))"

text \<open>
  \<open>socket.emit('data', d)\<close> calls every listener the socket has at that moment, in the
  order they were added.
\<close>

definition emit :: "sid \<Rightarrow> incoming \<Rightarrow> RKernel \<Rightarrow> RKernel" where
  "emit s d k = foldl (\<lambda>k' p. handler p d k') k (map snd (filter (\<lambda>l. fst l = s) (listeners k)))"

text \<open>
  The tick that \<open>resume()\<close> schedules for a socket: what the socket has buffered is
  emitted, one piece after the other. \<open>on_tick\<close> runs the ticks of all sockets.
\<close>

definition flow :: "sid \<Rightarrow> RKernel \<Rightarrow> RKernel" where
  "flow s k =
     (if s < length (sockets k) \<and> sock_flowing (sockets k ! s) then
        foldl (\<lambda>k' d. emit s d k')
          (k\<lparr>sockets := (sockets k)[s := (sockets k ! s)\<lparr>sock_buffer := []\<rparr>]\<rparr>)
          (sock_buffer (sockets k ! s))
      else k)"

definition on_tick :: "RKernel \<Rightarrow> RKernel" where
  "on_tick k = foldl (\<lambda>k' s. flow s k') k [0 ..< length (sockets k)]"

text \<open>
  Data arrives on a socket. A socket that flows emits it, after what it may still have
  buffered; a socket that does not flow yet buffers it.
\<close>

definition on_data :: "sid \<Rightarrow> incoming \<Rightarrow> RKernel \<Rightarrow> RKernel" where
  "on_data s d k =
     (if s < length (sockets k) \<and> \<not> sock_ended (sockets k ! s) then
        if sock_flowing (sockets k ! s) then emit s d (flow s k)
        else k\<lparr>sockets := (sockets k)[s := (sockets k ! s)
                    \<lparr>sock_buffer := sock_buffer (sockets k ! s) @ [d]\<rparr>]\<rparr>
      else k)"

definition stop :: "RKernel \<Rightarrow> RKernel" where
  "stop k =
     (case process k of
        None \<Rightarrow> k
      | Some c \<Rightarrow>
          k\<lparr>children := (children k)[c := (children k ! c)\<lparr>child_killed := True\<rparr>],
            process := None, socket := None\<rparr>)"

definition restart :: "RKernel \<Rightarrow> prid \<times> RKernel" where
  "restart k = start (stop k)"

text \<open>\<open>socket.on('data', handler)\<close>, where \<open>p\<close> is the promise the handler resolves.\<close>

definition add_listener :: "sid \<Rightarrow> prid \<Rightarrow> RKernel \<Rightarrow> RKernel" where
  "add_listener s p k =
     k\<lparr>listeners := listeners k @ [(s, p)],
       sockets := (sockets k)[s := (sockets k ! s)\<lparr>sock_flowing := True\<rparr>]\<rparr>"

text \<open>
  \<open>eval\<close>: with a socket, it adds its \<open>data\<close> listener and writes the request; the
  promise is resolved by the listener only. Without a socket the body does nothing, so
  the async method returns undefined.
\<close>

definition kernel_eval :: "NotebookCell \<Rightarrow> RKernel \<Rightarrow> prid \<times> RKernel" where
  "kernel_eval cell k =
     (case socket k of
        None \<Rightarrow> (let (p, k1) = new_Promise ByEval k in (p, settle p (Fulfilled Undefined) k1))
      | Some s \<Rightarrow>
          (let (p, k1) = new_Promise ByEval k;
               k2 = add_listener s p k1
           in (p, request \<lparr>req_id = executionOrder cell, req_type = Eval,
                           req_expr = Some (source cell)\<rparr> k2)))"

text \<open>\<open>cancel(cell)\<close>: the id is \<open>cell ? cell.metadata.executionOrder : 0\<close>.\<close>

definition cancel :: "NotebookCell option \<Rightarrow> RKernel \<Rightarrow> RKernel" where
  "cancel cell k =
     (case socket k of
        None \<Rightarrow> k
      | Some _ \<Rightarrow>
          request \<lparr>req_id = (case cell of Some c \<Rightarrow> executionOrder c | None \<Rightarrow> Some 0),
                   req_type = Cancel, req_expr = None\<rparr> k)"

text \<open>
  What can happen to a kernel: a call of one of its methods, or an event of the
  environment that runs one of its callbacks. An event runs in a later turn of the event
  loop than the calls before it, so the ticks scheduled until then run first; \<open>Ev_tick\<close>
  is the end of a run of JavaScript that no event follows. \<open>run\<close> is the kernel after a
  list of these, from a new kernel.
\<close>

datatype action =
    Call_start
  | Call_stop
  | Call_restart
  | Call_eval NotebookCell
  | Call_cancel "NotebookCell option"
  | Ev_listening srvid nat
  | Ev_connection srvid
  | Ev_end sid
  | Ev_exit pid
  | Ev_data sid incoming
  | Ev_tick

fun step :: "RKernel \<Rightarrow> action \<Rightarrow> RKernel" where
  "step k Call_start = snd (start k)"
| "step k Call_stop = stop k"
| "step k Call_restart = snd (restart k)"
| "step k (Call_eval cell) = snd (kernel_eval cell k)"
| "step k (Call_cancel cell) = cancel cell k"
| "step k (Ev_listening srv n) = on_listening srv n (on_tick k)"
| "step k (Ev_connection srv) = on_connection srv (on_tick k)"
| "step k (Ev_end s) = on_end s (on_tick k)"
| "step k (Ev_exit c) = on_exit c (on_tick k)"
| "step k (Ev_data s d) = on_data s d (on_tick k)"
| "step k Ev_tick = on_tick k"

definition run :: "action list \<Rightarrow> RKernel" where
  "run as = foldl step new_RKernel as"


definition by_start :: "RKernel \<Rightarrow> prid \<Rightarrow> bool" where
  "by_start k p = (p < length (promises k) \<and> made_by (promises k ! p) = ByStart)"

definition by_eval :: "RKernel \<Rightarrow> prid \<Rightarrow> bool" where
  "by_eval k p = (p < length (promises k) \<and> made_by (promises k ! p) = ByEval)"


text \<open>
  How the state of a promise can change while data is delivered: it stays as it is, or it
  goes from pending to resolved with a response.
\<close>

definition went :: "pstate \<Rightarrow> pstate \<Rightarrow> bool" where
  "went a b = (b = a \<or> (a = Pending \<and> (\<exists>r. b = Fulfilled (Response r))))"

text \<open>
  What a call or a callback that delivers no data leaves as it is: the promises made by
  \<open>eval\<close>, and the listeners, to which at most listeners of promises made later are added.
\<close>

definition quiet :: "RKernel \<Rightarrow> RKernel \<Rightarrow> bool" where
  "quiet k k' =
     (length (promises k) \<le> length (promises k')
      \<and> (\<forall>p. by_eval k p \<longrightarrow> promises k' ! p = promises k ! p)
      \<and> (\<exists>extra. listeners k' = listeners k @ extra
                   \<and> (\<forall>l \<in> set extra. length (promises k) \<le> snd l)))"

text \<open>
  Two promises of \<open>eval\<close> with their listeners on the socket \<open>s\<close>: both are pending and
  their listeners are in place, on that socket only; or both are resolved with the same
  response. \<open>none_buffered\<close>: both are pending, and the socket flows and holds no
  response in its buffer.
\<close>

definition both_pending :: "sid \<Rightarrow> prid \<Rightarrow> prid \<Rightarrow> RKernel \<Rightarrow> bool" where
  "both_pending s p1 p2 k =
     (by_eval k p1 \<and> by_eval k p2
      \<and> p_state (promises k ! p1) = Pending \<and> p_state (promises k ! p2) = Pending
      \<and> (s, p1) \<in> set (listeners k) \<and> (s, p2) \<in> set (listeners k)
      \<and> (\<forall>l \<in> set (listeners k). snd l = p1 \<or> snd l = p2 \<longrightarrow> fst l = s))"

definition both_resolved :: "prid \<Rightarrow> prid \<Rightarrow> RKernelResponse \<Rightarrow> RKernel \<Rightarrow> bool" where
  "both_resolved p1 p2 r k =
     (by_eval k p1 \<and> by_eval k p2
      \<and> p_state (promises k ! p1) = Fulfilled (Response r)
      \<and> p_state (promises k ! p2) = Fulfilled (Response r))"

definition together :: "sid \<Rightarrow> prid \<Rightarrow> prid \<Rightarrow> RKernel \<Rightarrow> bool" where
  "together s p1 p2 k = (both_pending s p1 p2 k \<or> (\<exists>r. both_resolved p1 p2 r k))"


text \<open>Concrete cells, responses and the start of a kernel up to its connection.\<close>

definition cell_of :: "nat \<Rightarrow> string \<Rightarrow> NotebookCell" where
  "cell_of n s = \<lparr>cellKind = Code, language = js ''r'', source = js s, runnable = True,
     runState = Some Running, executionOrder = Some n, custom = None, outputs = []\<rparr>"


definition ready :: "action list" where
  "ready = [Call_start, Ev_listening 0 5000, Ev_connection 0]"




section \<open>rTerminal.ts: the notebook provider\<close>

text \<open>
  A document is named by \<open>document.uri.toString()\<close>, a cell by its index in
  \<open>document.cells\<close>.

  An async method runs until its first \<open>await\<close> and goes on when the awaited promise
  has settled. \<open>awaiting\<close> lists the suspended methods in the order they suspended: what
  each waits for (\<open>target\<close>) and how it goes on (\<open>kont\<close>, one constructor for each
  \<open>await\<close> of the source).
\<close>

type_synonym docKey = jsstring

datatype target =
    KernelPromise docKey prid
  | CallPromise prid
  | Command nat
  | ReadFile nat

datatype kont =
    Then_restart docKey
  | Then_kernel_eval docKey nat prid
  | Then_adopt prid
  | Then_outputs docKey nat prid
  | Then_plot docKey nat prid
  | Then_next_runnable docKey nat prid
  | Then_next_cell docKey nat prid

datatype settled = Settled pstate | FileContent "jsstring option"

text \<open>
  The provider and what it works on: \<open>notebooks\<close> (each \<open>RNotebook\<close> is its kernel) and
  \<open>runIndex\<close> are fields of \<open>RNotebookProvider\<close>; \<open>documents\<close> are the cells of the
  editor's documents; \<open>calls\<close> are the promises of the async methods of the provider
  and of \<open>RNotebook\<close>; \<open>commands\<close> and \<open>reads\<close> count the calls of \<open>executeCommand\<close>
  and \<open>readFile\<close>, which the editor completes later.
\<close>

record world =
  notebooks :: "docKey \<rightharpoonup> RKernel"
  runIndex :: nat
  documents :: "docKey \<Rightarrow> NotebookCell list"
  calls :: "pstate list"
  awaiting :: "(target \<times> kont) list"
  commands :: nat
  reads :: nat

definition new_world :: world where
  "new_world = \<lparr>notebooks = Map.empty, runIndex = 0, documents = (\<lambda>_. []), calls = [],
                 awaiting = [], commands = 0, reads = 0\<rparr>"

definition new_call :: "world \<Rightarrow> prid \<times> world" where
  "new_call w = (length (calls w), w\<lparr>calls := calls w @ [Pending]\<rparr>)"

definition settle_call :: "prid \<Rightarrow> pstate \<Rightarrow> world \<Rightarrow> world" where
  "settle_call p v w =
     (if p < length (calls w) \<and> calls w ! p = Pending then w\<lparr>calls := (calls w)[p := v]\<rparr>
      else w)"

definition set_cell :: "docKey \<Rightarrow> nat \<Rightarrow> (NotebookCell \<Rightarrow> NotebookCell) \<Rightarrow> world \<Rightarrow> world" where
  "set_cell key idx f w =
     w\<lparr>documents := (documents w)(key := (documents w key)[idx := f (documents w key ! idx)])\<rparr>"

definition await :: "target \<Rightarrow> kont \<Rightarrow> world \<Rightarrow> world" where
  "await t c w = w\<lparr>awaiting := awaiting w @ [(t, c)]\<rparr>"

text \<open>
  \<open>RNotebook.restartKernel\<close>: it issues the command that clears the outputs and
  suspends; the kernel is restarted when the command has completed (\<open>Then_restart\<close>).
\<close>

definition restartKernel :: "docKey \<Rightarrow> world \<Rightarrow> world" where
  "restartKernel key w =
     await (Command (commands w)) (Then_restart key) (w\<lparr>commands := commands w + 1\<rparr>)"

text \<open>
  \<open>RNotebook.eval\<close>: \<open>await this.kernel.start()\<close>, then \<open>return this.kernel.eval(cell)\<close>
  (\<open>Then_kernel_eval\<close>).
\<close>

definition notebook_eval :: "docKey \<Rightarrow> nat \<Rightarrow> RKernel \<Rightarrow> world \<Rightarrow> prid \<times> world" where
  "notebook_eval key idx kern w =
     (let (p, kern') = start kern;
          (ev, w1) = new_call (w\<lparr>notebooks := (notebooks w)(key \<mapsto> kern')\<rparr>)
      in (ev, await (KernelPromise key p) (Then_kernel_eval key idx ev) w1))"

text \<open>
  \<open>executeCell(document, cell)\<close> for a cell that is defined, up to
  \<open>await notebook.eval(cell)\<close>.
\<close>

definition executeCell_cell :: "docKey \<Rightarrow> nat \<Rightarrow> world \<Rightarrow> prid \<times> world" where
  "executeCell_cell key idx w =
     (let (call, w1) = new_call w in
      case notebooks w1 key of
        None \<Rightarrow> (call, settle_call call (Fulfilled Undefined) w1)
      | Some notebook \<Rightarrow>
          if runState (documents w1 key ! idx) \<noteq> Some Running then
            (let w2 = set_cell key idx
                        (\<lambda>c. c\<lparr>runState := Some Running,
                                executionOrder := Some (runIndex w1 + 1)\<rparr>)
                        (w1\<lparr>runIndex := runIndex w1 + 1\<rparr>);
                 (ev, w3) = notebook_eval key idx notebook w2
             in (call, await (CallPromise ev) (Then_outputs key idx call) w3))
          else (call, settle_call call (Fulfilled Undefined) w1))"

text \<open>
  The loop of the run-all branch, from cell \<open>i\<close> on:
  \<open>for (const cell of document.cells) if (cell.cellKind === Code && cell.metadata.runnable)
  await this.executeCell(document, cell)\<close>.
\<close>

function runnable_loop :: "docKey \<Rightarrow> nat \<Rightarrow> prid \<Rightarrow> world \<Rightarrow> world" where
  "runnable_loop key i call w =
     (if i < length (documents w key) then
        if cellKind (documents w key ! i) = Code \<and> runnable (documents w key ! i) then
          (let (q, w1) = executeCell_cell key i w
           in await (CallPromise q) (Then_next_runnable key (i + 1) call) w1)
        else runnable_loop key (i + 1) call w
      else settle_call call (Fulfilled Undefined) w)"
  by pat_completeness auto
termination
  by (relation "measure (\<lambda>(key, i, call, w). length (documents w key) - i)") auto

declare runnable_loop.simps [simp del]

text \<open>
  \<open>executeCell(document, undefined)\<close>, the run-all branch: \<open>notebook.restartKernel()\<close>
  is called and not awaited, and the loop starts.
\<close>

definition executeCell_undefined :: "docKey \<Rightarrow> world \<Rightarrow> prid \<times> world" where
  "executeCell_undefined key w =
     (let (call, w1) = new_call w;
          w2 = (case notebooks w1 key of None \<Rightarrow> w1 | Some notebook \<Rightarrow> restartKernel key w1)
      in (call, runnable_loop key 0 call w2))"

definition executeCell :: "docKey \<Rightarrow> nat option \<Rightarrow> world \<Rightarrow> prid \<times> world" where
  "executeCell key cell w =
     (case cell of None \<Rightarrow> executeCell_undefined key w | Some idx \<Rightarrow> executeCell_cell key idx w)"

text \<open>
  \<open>executeAllCells\<close>:
  \<open>for (const cell of document.cells) await this.executeCell(document, cell)\<close>.
\<close>

definition all_loop :: "docKey \<Rightarrow> nat \<Rightarrow> prid \<Rightarrow> world \<Rightarrow> world" where
  "all_loop key i call w =
     (if i < length (documents w key) then
        (let (q, w1) = executeCell_cell key i w
         in await (CallPromise q) (Then_next_cell key (i + 1) call) w1)
      else settle_call call (Fulfilled Undefined) w)"

definition executeAllCells :: "docKey \<Rightarrow> world \<Rightarrow> prid \<times> world" where
  "executeAllCells key w = (let (call, w1) = new_call w in (call, all_loop key 0 call w1))"

text \<open>
  The \<open>catch\<close> block of \<open>executeCell\<close>. Its first statement reads \<open>e.toString()\<close>, which
  itself throws when \<open>e\<close> is undefined; then the cell is left as it is and the promise
  of \<open>executeCell\<close> is rejected.
\<close>

definition catch_block :: "docKey \<Rightarrow> nat \<Rightarrow> prid \<Rightarrow> jsvalue \<Rightarrow> world \<Rightarrow> world" where
  "catch_block key idx call e w =
     (case e of
        Undefined \<Rightarrow> settle_call call (Rejected (Thrown TypeError)) w
      | _ \<Rightarrow>
          settle_call call (Fulfilled Undefined)
            (set_cell key idx (\<lambda>c. c\<lparr>outputs := [OutputError [] (ToString e)],
                                     runState := Some Failed\<rparr>) w))"

text \<open>The \<open>switch (response.type)\<close> of \<open>executeCell\<close>.\<close>

definition show_response :: "docKey \<Rightarrow> nat \<Rightarrow> prid \<Rightarrow> RKernelResponse \<Rightarrow> world \<Rightarrow> world" where
  "show_response key idx call response w =
     (case resp_type response of
        type_text \<Rightarrow>
          settle_call call (Fulfilled Undefined)
            (set_cell key idx (\<lambda>c. c\<lparr>outputs := [OutputText (resp_result response)]\<rparr>) w)
      | type_plot \<Rightarrow>
          await (ReadFile (reads w)) (Then_plot key idx call) (w\<lparr>reads := reads w + 1\<rparr>)
      | type_viewer \<Rightarrow>
          settle_call call (Fulfilled Undefined)
            (set_cell key idx
               (\<lambda>c. c\<lparr>outputs := [OutputRich (js ''text/plain'') (resp_result response)]\<rparr>) w)
      | type_browser \<Rightarrow>
          settle_call call (Fulfilled Undefined)
            (set_cell key idx
               (\<lambda>c. c\<lparr>outputs := [OutputRich (js ''text/plain'') (resp_result response)]\<rparr>) w)
      | type_error \<Rightarrow>
          settle_call call (Fulfilled Undefined)
            (set_cell key idx
               (\<lambda>c. c\<lparr>runState := Some Failed,
                       outputs := [OutputError (js ''Error'')
                                     (Message (resp_result response))]\<rparr>) w))"

text \<open>
  How a suspended method goes on, given what it waited for. Reading \<open>response.id\<close> of
  an undefined response throws a TypeError, which the \<open>catch\<close> block of \<open>executeCell\<close>
  receives.
\<close>

fun resume :: "kont \<Rightarrow> settled \<Rightarrow> world \<Rightarrow> world" where
  "resume (Then_restart key) r w =
     (case r of
        Settled (Fulfilled _) \<Rightarrow>
          (case notebooks w key of
             None \<Rightarrow> w
           | Some kern \<Rightarrow> w\<lparr>notebooks := (notebooks w)(key \<mapsto> snd (restart kern))\<rparr>)
      | _ \<Rightarrow> w)"
| "resume (Then_kernel_eval key idx ev) r w =
     (case r of
        Settled (Fulfilled _) \<Rightarrow>
          (case notebooks w key of
             None \<Rightarrow> w
           | Some kern \<Rightarrow>
               (let (p, kern') = kernel_eval (documents w key ! idx) kern
                in await (KernelPromise key p) (Then_adopt ev)
                     (w\<lparr>notebooks := (notebooks w)(key \<mapsto> kern')\<rparr>)))
      | Settled (Rejected e) \<Rightarrow> settle_call ev (Rejected e) w
      | _ \<Rightarrow> w)"
| "resume (Then_adopt call) r w = (case r of Settled st \<Rightarrow> settle_call call st w | _ \<Rightarrow> w)"
| "resume (Then_outputs key idx call) r w =
     (case r of
        Settled (Fulfilled v) \<Rightarrow>
          (let w1 = set_cell key idx (\<lambda>c. c\<lparr>runState := Some Success\<rparr>) w in
           case v of
             Response response \<Rightarrow> show_response key idx call response w1
           | _ \<Rightarrow> catch_block key idx call (Thrown TypeError) w1)
      | Settled (Rejected e) \<Rightarrow> catch_block key idx call e w
      | _ \<Rightarrow> w)"
| "resume (Then_plot key idx call) r w =
     (case r of
        FileContent (Some content) \<Rightarrow>
          settle_call call (Fulfilled Undefined)
            (set_cell key idx
               (\<lambda>c. c\<lparr>outputs := [OutputRich (js ''image/svg+xml'') content]\<rparr>) w)
      | FileContent None \<Rightarrow> catch_block key idx call (Thrown TypeError) w
      | _ \<Rightarrow> w)"
| "resume (Then_next_runnable key i call) r w =
     (case r of
        Settled (Fulfilled _) \<Rightarrow> runnable_loop key i call w
      | Settled (Rejected e) \<Rightarrow> settle_call call (Rejected e) w
      | _ \<Rightarrow> w)"
| "resume (Then_next_cell key i call) r w =
     (case r of
        Settled (Fulfilled _) \<Rightarrow> all_loop key i call w
      | Settled (Rejected e) \<Rightarrow> settle_call call (Rejected e) w
      | _ \<Rightarrow> w)"

definition target_state :: "world \<Rightarrow> target \<Rightarrow> pstate" where
  "target_state w t =
     (case t of
        KernelPromise key p \<Rightarrow>
          (case notebooks w key of
             None \<Rightarrow> Pending
           | Some kern \<Rightarrow>
               if p < length (promises kern) then p_state (promises kern ! p) else Pending)
      | CallPromise p \<Rightarrow> (if p < length (calls w) then calls w ! p else Pending)
      | Command _ \<Rightarrow> Pending
      | ReadFile _ \<Rightarrow> Pending)"

fun take_first :: "('a \<Rightarrow> bool) \<Rightarrow> 'a list \<Rightarrow> ('a \<times> 'a list) option" where
  "take_first P [] = None"
| "take_first P (x # xs) =
     (if P x then Some (x, xs)
      else (case take_first P xs of None \<Rightarrow> None | Some (y, ys) \<Rightarrow> Some (y, x # ys)))"

text \<open>
  The microtasks after a call or an event: as long as a suspended method waits for a
  promise that has settled, the first such method goes on. \<open>fuel\<close> bounds the number of
  methods resumed; \<open>None\<close> means the bound was too small.
\<close>

fun drain :: "nat \<Rightarrow> world \<Rightarrow> world option" where
  "drain fuel w =
     (case take_first (\<lambda>a. target_state w (fst a) \<noteq> Pending) (awaiting w) of
        None \<Rightarrow> Some w
      | Some ((t, c), rest) \<Rightarrow>
          (case fuel of
             0 \<Rightarrow> None
           | Suc n \<Rightarrow> drain n (resume c (Settled (target_state w t)) (w\<lparr>awaiting := rest\<rparr>))))"

text \<open>The editor completes a command or a file read: the method that waits for it goes on.\<close>

definition external :: "target \<Rightarrow> settled \<Rightarrow> world \<Rightarrow> world" where
  "external t r w =
     (case take_first (\<lambda>a. fst a = t) (awaiting w) of
        None \<Rightarrow> w
      | Some ((_, c), rest) \<Rightarrow> resume c r (w\<lparr>awaiting := rest\<rparr>))"

text \<open>
  The listener of \<open>onDidOpenNotebookDocument\<close>, for a document with the cells \<open>cs\<close>.
\<close>

definition onDidOpenNotebookDocument :: "docKey \<Rightarrow> NotebookCell list \<Rightarrow> world \<Rightarrow> world" where
  "onDidOpenNotebookDocument key cs w =
     (let w1 = w\<lparr>documents := (documents w)(key := cs)\<rparr> in
      case notebooks w1 key of
        Some _ \<Rightarrow> w1
      | None \<Rightarrow>
          (let w2 = restartKernel key w1
           in w2\<lparr>notebooks := (notebooks w2)(key \<mapsto> new_RKernel)\<rparr>))"

text \<open>
  \<open>cancelCellExecution\<close> and \<open>cancelAllCellsExecution\<close>. Both are async: \<open>Inl\<close> is the
  error their promise is rejected with (\<open>notebook.cancel\<close> of an undefined notebook).
\<close>

definition cancelCellExecution :: "docKey \<Rightarrow> NotebookCell \<Rightarrow> world \<Rightarrow> js_error + world" where
  "cancelCellExecution key cell w =
     (if runState cell = Some Running then
        (case notebooks w key of
           None \<Rightarrow> Inl TypeError
         | Some kern \<Rightarrow> Inr (w\<lparr>notebooks := (notebooks w)(key \<mapsto> cancel (Some cell) kern)\<rparr>))
      else Inr w)"

definition cancelAllCellsExecution :: "docKey \<Rightarrow> world \<Rightarrow> js_error + world" where
  "cancelAllCellsExecution key w =
     (case notebooks w key of
        None \<Rightarrow> Inl TypeError
      | Some kern \<Rightarrow> Inr (w\<lparr>notebooks := (notebooks w)(key \<mapsto> cancel None kern)\<rparr>))"

text \<open>
  What can happen to the provider: the editor opens a document, calls \<open>executeCell\<close> or
  \<open>executeAllCells\<close>, completes a command or a file read, or an event reaches the kernel
  of a document. \<open>wrun\<close> runs a list of these. Each is followed by its microtasks, then
  by the ticks that the microtasks scheduled (\<open>ticks\<close>: a listener added by \<open>eval\<close> makes
  its socket flow) and the microtasks that these enable.
\<close>

datatype wevent =
    Open docKey "NotebookCell list"
  | ExecuteCell docKey "nat option"
  | ExecuteAllCells docKey
  | CommandDone nat
  | FileRead nat "jsstring option"
  | Kernel docKey action

fun wstep :: "world \<Rightarrow> wevent \<Rightarrow> world" where
  "wstep w (Open key cs) = onDidOpenNotebookDocument key cs w"
| "wstep w (ExecuteCell key cell) = snd (executeCell key cell w)"
| "wstep w (ExecuteAllCells key) = snd (executeAllCells key w)"
| "wstep w (CommandDone n) = external (Command n) (Settled (Fulfilled Undefined)) w"
| "wstep w (FileRead n content) = external (ReadFile n) (FileContent content) w"
| "wstep w (Kernel key a) =
     (case notebooks w key of
        None \<Rightarrow> w
      | Some kern \<Rightarrow> w\<lparr>notebooks := (notebooks w)(key \<mapsto> step kern a)\<rparr>)"

definition ticks :: "world \<Rightarrow> world" where
  "ticks w = w\<lparr>notebooks := (\<lambda>key. map_option on_tick (notebooks w key))\<rparr>"

fun wrun :: "nat \<Rightarrow> wevent list \<Rightarrow> world \<Rightarrow> world option" where
  "wrun fuel [] w = Some w"
| "wrun fuel (e # es) w =
     (case drain fuel (wstep w e) of
        None \<Rightarrow> None
      | Some w1 \<Rightarrow>
          (case drain fuel (ticks w1) of None \<Rightarrow> None | Some w2 \<Rightarrow> wrun fuel es w2))"

text \<open>
  A document of one runnable code cell, opened and with its kernel started up to the
  connection; and a provider whose only notebook has a connected kernel.
\<close>

definition doc1 :: docKey where
  "doc1 = js ''a.Rmd''"

definition code_cell :: "string \<Rightarrow> NotebookCell" where
  "code_cell s = \<lparr>cellKind = Code, language = js ''r'', source = js s, runnable = True,
     runState = None, executionOrder = None, custom = None, outputs = []\<rparr>"

definition opened :: "wevent list" where
  "opened = [Open doc1 [code_cell ''1''], CommandDone 0, Kernel doc1 (Ev_listening 0 5000),
             Kernel doc1 (Ev_connection 0)]"

definition connected :: world where
  "connected = new_world\<lparr>notebooks := [doc1 \<mapsto> run ready],
                          documents := (\<lambda>_. [])(doc1 := [code_cell ''1''])\<rparr>"


section \<open>rTerminal.ts: a notebook file and its cells\<close>

text \<open>\<open>s.startsWith(p)\<close>\<close>

definition startsWith :: "jsstring \<Rightarrow> jsstring \<Rightarrow> bool" where
  "startsWith s p = (take (length p) s = p)"

text \<open>
  The three kinds of cell data that \<open>openNotebook\<close> pushes (\<open>editable\<close>, always true, is
  left out), with the fields the editor gives a cell made from them.
\<close>

definition markdown_cell :: "jsstring \<Rightarrow> NotebookCell" where
  "markdown_cell src = \<lparr>cellKind = Markdown, language = js ''markdown'', source = src,
     runnable = False, runState = None, executionOrder = None, custom = None, outputs = []\<rparr>"

definition yaml_cell :: "jsstring \<Rightarrow> NotebookCell" where
  "yaml_cell src = \<lparr>cellKind = Code, language = js ''yaml'', source = src,
     runnable = False, runState = None, executionOrder = None, custom = None, outputs = []\<rparr>"

definition r_cell :: "jsstring \<Rightarrow> jsstring \<Rightarrow> jsstring \<Rightarrow> NotebookCell" where
  "r_cell src h f = \<lparr>cellKind = Code, language = js ''r'', source = src,
     runnable = True, runState = None, executionOrder = None,
     custom = Some \<lparr>header = h, footer = f\<rparr>, outputs = []\<rparr>"

text \<open>
  The loop of \<open>openNotebook\<close> over the lines of the file, with its variables \<open>line\<close>,
  \<open>cellType\<close>, \<open>cellStartLine\<close> and \<open>cells\<close>.
\<close>

datatype cellType = T_markdown | T_yaml | T_r

function openNotebook_loop ::
  "jsstring list \<Rightarrow> nat \<Rightarrow> cellType \<Rightarrow> nat \<Rightarrow> NotebookCell list \<Rightarrow> NotebookCell list" where
  "openNotebook_loop lines line cellType cellStartLine cells =
     (if line < length lines then
        (case cellType of
           T_markdown \<Rightarrow>
             if startsWith (lines ! line) (js ''---'') then
               openNotebook_loop lines (line + 1) T_yaml line cells
             else if startsWith (lines ! line) (js ''```{r'') then
               openNotebook_loop lines (line + 1) T_r line
                 (if line > cellStartLine
                  then cells @ [markdown_cell (join (slice cellStartLine line lines))]
                  else cells)
             else if line = length lines - 1 then
               openNotebook_loop lines (line + 1) T_markdown cellStartLine
                 (if line > cellStartLine
                  then cells @ [markdown_cell (join (slice cellStartLine line lines))]
                  else cells)
             else openNotebook_loop lines (line + 1) T_markdown cellStartLine cells
         | T_yaml \<Rightarrow>
             if startsWith (lines ! line) (js ''---'') then
               openNotebook_loop lines (line + 1) T_markdown (line + 1)
                 (cells @ [yaml_cell (join (slice cellStartLine (line + 1) lines))])
             else openNotebook_loop lines (line + 1) T_yaml cellStartLine cells
         | T_r \<Rightarrow>
             if startsWith (lines ! line) (js ''```'') then
               openNotebook_loop lines (line + 1) T_markdown (line + 1)
                 (cells @ [r_cell (join (slice (cellStartLine + 1) line lines))
                             (lines ! cellStartLine) (lines ! line)])
             else openNotebook_loop lines (line + 1) T_r cellStartLine cells)
      else cells)"
  by pat_completeness auto
termination
  by (relation "measure (\<lambda>(lines, line, cellType, cellStartLine, cells). length lines - line)") auto

declare openNotebook_loop.simps [simp del]

definition openNotebook :: "jsstring \<Rightarrow> NotebookCell list" where
  "openNotebook content = openNotebook_loop (split_lines content) 0 T_markdown 0 []"

text \<open>
  \<open>save\<close>: what one cell adds to \<open>content\<close>, and the text written to the file. When
  cancellation is requested the loop returns at its first cell and nothing is written.
\<close>

definition cell_text :: "NotebookCell \<Rightarrow> jsstring" where
  "cell_text cell =
     (case cellKind cell of
        Markdown \<Rightarrow> source cell @ [LF]
      | Code \<Rightarrow>
          if language cell = js ''r'' then
            (let c = (case custom cell of
                        None \<Rightarrow> \<lparr>header = js ''```{r}'', footer = js ''```''\<rparr>
                      | Some c \<Rightarrow> c)
             in header c @ [LF] @ source cell @ [LF] @ footer c @ [LF])
          else if language cell = js ''yaml'' then source cell @ [LF, LF]
          else js ''```{'' @ language cell @ js ''}'' @ [LF] @ source cell @ [LF] @ js ''```'' @ [LF])"

definition save :: "bool \<Rightarrow> NotebookCell list \<Rightarrow> jsstring option" where
  "save isCancellationRequested cells =
     (if isCancellationRequested \<and> cells \<noteq> [] then None
      else Some (concat (map cell_text cells)))"

text \<open>
  The same scan by recursion over the lines still to read, for the proofs. A block is
  the lines of one cell; the state holds the lines read since \<open>cellStartLine\<close> (and,
  inside a code block, its header line).
\<close>

datatype block = MdB "jsstring list" | YB "jsstring list" | RB jsstring "jsstring list" jsstring

datatype scanstate = In_md "jsstring list" | In_yaml "jsstring list" | In_r jsstring "jsstring list"

definition flush :: "jsstring list \<Rightarrow> block list" where
  "flush acc = (if acc = [] then [] else [MdB acc])"

fun scan :: "scanstate \<Rightarrow> jsstring list \<Rightarrow> block list" where
  "scan st [] = []"
| "scan (In_md acc) (l # ls) =
     (if startsWith l (js ''---'') then scan (In_yaml [l]) ls
      else if startsWith l (js ''```{r'') then flush acc @ scan (In_r l []) ls
      else if ls = [] then flush acc
      else scan (In_md (acc @ [l])) ls)"
| "scan (In_yaml acc) (l # ls) =
     (if startsWith l (js ''---'') then YB (acc @ [l]) # scan (In_md []) ls
      else scan (In_yaml (acc @ [l])) ls)"
| "scan (In_r h acc) (l # ls) =
     (if startsWith l (js ''```'') then RB h acc l # scan (In_md []) ls
      else scan (In_r h (acc @ [l])) ls)"

fun block_cell :: "block \<Rightarrow> NotebookCell" where
  "block_cell (MdB acc) = markdown_cell (join acc)"
| "block_cell (YB acc) = yaml_cell (join acc)"
| "block_cell (RB h b f) = r_cell (join b) h f"

definition state_of :: "cellType \<Rightarrow> nat \<Rightarrow> nat \<Rightarrow> jsstring list \<Rightarrow> scanstate" where
  "state_of ct s0 line lines =
     (case ct of
        T_markdown \<Rightarrow> In_md (slice s0 line lines)
      | T_yaml \<Rightarrow> In_yaml (slice s0 line lines)
      | T_r \<Rightarrow> In_r (lines ! s0) (slice (s0 + 1) line lines))"

definition state_ok :: "cellType \<Rightarrow> nat \<Rightarrow> nat \<Rightarrow> bool" where
  "state_ok ct s0 line = (case ct of T_markdown \<Rightarrow> s0 \<le> line | _ \<Rightarrow> s0 < line)"

text \<open>
  A document composed of markdown spans and code blocks of the target language
  (\<open>wfB\<close>): a markdown span is one or more lines that start neither front matter nor a
  code block, and a code block follows it or the document ends; a code block is a
  header line, body lines that do not start with three backquotes, and a footer line
  that does. No line holds a line feed or ends in a carriage return (\<open>good\<close>).
\<close>

definition good :: "jsstring \<Rightarrow> bool" where
  "good l = (LF \<notin> set l \<and> (l = [] \<or> last l \<noteq> CR))"

definition plain :: "jsstring \<Rightarrow> bool" where
  "plain l = (\<not> startsWith l (js ''---'') \<and> \<not> startsWith l (js ''```{r''))"

definition fence :: "jsstring \<Rightarrow> bool" where
  "fence l = startsWith l (js ''```'')"

fun is_RB :: "block \<Rightarrow> bool" where
  "is_RB (RB _ _ _) = True"
| "is_RB _ = False"

fun is_YB :: "block \<Rightarrow> bool" where
  "is_YB (YB _) = True"
| "is_YB _ = False"

fun wfB :: "block list \<Rightarrow> bool" where
  "wfB [] = True"
| "wfB (MdB a # bs) =
     (a \<noteq> [] \<and> list_all plain a \<and> list_all good a \<and> (bs = [] \<or> is_RB (hd bs)) \<and> wfB bs)"
| "wfB (RB h b f # bs) =
     (startsWith h (js ''```{r'') \<and> good h \<and> list_all (\<lambda>l. \<not> fence l) b \<and> list_all good b
      \<and> fence f \<and> good f \<and> wfB bs)"
| "wfB (YB a # bs) = False"

fun linesB :: "block \<Rightarrow> jsstring list" where
  "linesB (MdB a) = a"
| "linesB (RB h b f) = h # (if b = [] then [[]] else b) @ [f]"
| "linesB (YB a) = a"

fun normB :: "block \<Rightarrow> block" where
  "normB (RB h b f) = RB h (if b = [] then [[]] else b) f"
| "normB b = b"

fun st_ok :: "scanstate \<Rightarrow> bool" where
  "st_ok (In_md a) = (list_all plain a \<and> list_all good a)"
| "st_ok (In_yaml a) = True"
| "st_ok (In_r h a) =
     (startsWith h (js ''```{r'') \<and> good h \<and> list_all (\<lambda>l. \<not> fence l) a \<and> list_all good a)"

fun ok_from :: "scanstate \<Rightarrow> block list \<Rightarrow> bool" where
  "ok_from (In_md a) bs = wfB bs"
| "ok_from (In_yaml a) bs = (bs = [])"
| "ok_from (In_r h a) bs = (bs = [] \<or> (is_RB (hd bs) \<and> wfB bs))"

text \<open>
  Two documents: front matter, a markdown line and a code block; and two markdown lines
  with no line feed at the end.
\<close>

definition yaml_doc :: jsstring where
  "yaml_doc = js ''---'' @ [LF] @ js ''t: x'' @ [LF] @ js ''---'' @ [LF] @ js ''Hi'' @ [LF] @ js ''```{r a}'' @ [LF] @ js ''1'' @ [LF] @ js ''```'' @ [LF]"

definition bye_doc :: jsstring where
  "bye_doc = js ''Hi'' @ [LF] @ js ''Bye''"

section \<open>Proofs: the chunks of a document\<close>

lemma upto_snoc: "[1 .. 1 + int n] = [1 .. int n] @ [1 + int n]"
  by (simp add: upto_rec2)

lemma getChunks_loop_done:
  "\<not> line < length lines \<Longrightarrow> getChunks_loop lc lines line chunkId cur chunks = chunks"
  by (simp add: getChunks_loop.simps)

lemma getChunks_loop_ok:
  "chunks_inv line chunkId cur chunks \<Longrightarrow>
   chunks_ok (getChunks_loop lc lines line chunkId cur chunks)"
proof (induction lc lines line chunkId cur chunks rule: getChunks_loop.induct)
  case (1 lc lines line chunkId cur chunks)
  show ?case
  proof (cases "line < length lines")
    case False
    then show ?thesis using "1.prems"
      by (simp add: getChunks_loop_done chunks_inv_def)
  next
    case True
    show ?thesis
    proof (cases cur)
      case None
      show ?thesis
      proof (cases "isChunkStartLine (lines ! line)")
        case s: True
        have "chunks_inv (line + 1) (chunkId + 1)
                (Some (line, getChunkLanguage lc (lines ! line), getChunkOptions (lines ! line),
                       getChunkEval (getChunkOptions (lines ! line)))) chunks"
          using "1.prems" None by (auto simp: chunks_inv_def)
        from "1.IH"(1)[OF True None s this] show ?thesis
          using True None s by (simp add: getChunks_loop.simps[of lc lines line])
      next
        case s: False
        have "chunks_inv (line + 1) chunkId None chunks"
          using "1.prems" None by (auto simp: chunks_inv_def)
        from "1.IH"(2)[OF True None s this] show ?thesis
          using True None s by (simp add: getChunks_loop.simps[of lc lines line])
      qed
    next
      case (Some t)
      obtain s lang opts ev where t: "t = (s, lang, opts, ev)" by (cases t) auto
      show ?thesis
      proof (cases "isChunkEndLine (lines ! line)")
        case e: True
        let ?c = "\<lparr>chunk_id = chunkId, startLine = s, endLine = line,
                    chunk_language = lang, chunk_options = opts,
                    chunk_eval = ev,
                    chunkRange = new_Range \<lparr>pos_line = s, pos_character = 0\<rparr>
                                   \<lparr>pos_line = line, pos_character = length (lines ! line)\<rparr>,
                    codeRange = new_Range \<lparr>pos_line = s + 1, pos_character = 0\<rparr>
                                  \<lparr>pos_line = line - 1, pos_character = length (lines ! (line - 1))\<rparr>\<rparr>"
        have "chunks_inv (line + 1) chunkId None (chunks @ [?c])"
          using "1.prems" Some t
          by (auto simp: chunks_inv_def chunks_ok_def upto_snoc sorted_wrt_append)
        from "1.IH"(3)[OF True Some t[symmetric] refl refl e this] show ?thesis
          using True Some t e by (simp add: getChunks_loop.simps[of lc lines line])
      next
        case e: False
        have "chunks_inv (line + 1) chunkId cur chunks"
          using "1.prems" Some t by (auto simp: chunks_inv_def)
        from "1.IH"(4)[OF True Some t[symmetric] refl refl e this] show ?thesis
          using True Some t e by (simp add: getChunks_loop.simps[of lc lines line])
      qed
    qed
  qed
qed

lemma getChunks_ok: "chunks_ok (getChunks lc doc)"
  unfolding getChunks_def by (rule getChunks_loop_ok) (simp add: chunks_inv_def chunks_ok_def)

lemma filter_ids:
  "map f xs = [1 .. int (length xs)] \<Longrightarrow> 1 \<le> i \<Longrightarrow> i \<le> int (length xs) \<Longrightarrow>
   filter (\<lambda>e. f e = i) xs = [xs ! nat (i - 1)]"
proof (induction xs arbitrary: i rule: rev_induct)
  case Nil
  then show ?case by simp
next
  case (snoc x xs)
  from snoc.prems(1) have m: "map f xs = [1 .. int (length xs)]"
    and fx: "f x = int (length xs) + 1"
    by (simp_all add: upto_snoc)
  show ?case
  proof (cases "i \<le> int (length xs)")
    case True
    with snoc.IH[OF m snoc.prems(2)] fx snoc.prems(2) show ?thesis
      by (auto simp: nth_append)
  next
    case False
    with snoc.prems have i: "i = int (length xs) + 1" by simp
    have "\<forall>e \<in> set xs. f e \<noteq> i"
    proof
      fix e assume "e \<in> set xs"
      then have "f e \<in> set (map f xs)" by simp
      then show "f e \<noteq> i" unfolding m i by simp
    qed
    then have "filter (\<lambda>e. f e = i) xs = []" by (simp add: filter_empty_conv)
    then show ?thesis using fx i by (simp add: nth_append)
  qed
qed

lemma first_where_ids:
  "map f xs = [1 .. int (length xs)] \<Longrightarrow> 1 \<le> i \<Longrightarrow> i \<le> int (length xs) \<Longrightarrow>
   first_where (\<lambda>e. f e = i) xs = Some (xs ! nat (i - 1))"
  by (simp add: first_where_def filter_ids)

text \<open>
  C9. For every document text, the chunks that \<open>getChunks\<close> returns carry the ids
  1, 2, ..., n in order; each chunk starts on a line before the line it ends on; a chunk
  ends before every later chunk starts; and for every i from 1 to n the lookup
  \<open>chunks.filter(e => e.id === i)[0]\<close> finds exactly one chunk, the i-th.
\<close>

theorem getChunks_ids:
  "map chunk_id (getChunks lc doc) = [1 .. int (length (getChunks lc doc))]
   \<and> (\<forall>c \<in> set (getChunks lc doc). startLine c < endLine c)
   \<and> (\<forall>i j. i < j \<and> j < length (getChunks lc doc) \<longrightarrow>
         endLine (getChunks lc doc ! i) < startLine (getChunks lc doc ! j))
   \<and> (\<forall>i. 1 \<le> i \<and> i \<le> int (length (getChunks lc doc)) \<longrightarrow>
         filter (\<lambda>e. chunk_id e = i) (getChunks lc doc) = [getChunks lc doc ! nat (i - 1)])"
  using getChunks_ok[of lc doc]
  by (auto simp: chunks_ok_def sorted_wrt_iff_nth_less filter_ids)

lemma two_chunks_length: "length (getChunks ascii_lower two_chunks) = 2"
  by code_simp

theorem getChunks_ids_witness:
  "length (getChunks ascii_lower two_chunks) = 2
   \<and> map chunk_id (getChunks ascii_lower two_chunks) = [1, 2]
   \<and> startLine (getChunks ascii_lower two_chunks ! 0) < endLine (getChunks ascii_lower two_chunks ! 0)
   \<and> endLine (getChunks ascii_lower two_chunks ! 0) < startLine (getChunks ascii_lower two_chunks ! 1)
   \<and> filter (\<lambda>e. chunk_id e = 2) (getChunks ascii_lower two_chunks)
       = [getChunks ascii_lower two_chunks ! 1]"
proof -
  let ?cs = "getChunks ascii_lower two_chunks"
  note len = two_chunks_length
  note T = getChunks_ids[of ascii_lower two_chunks]
  from T len have ids: "map chunk_id ?cs = [1, 2]" by (simp add: upto_rec1)
  have "?cs ! 0 \<in> set ?cs" using len by simp
  with T have a: "startLine (?cs ! 0) < endLine (?cs ! 0)" by blast
  from T len have b: "endLine (?cs ! 0) < startLine (?cs ! 1)" by simp
  from T len have c: "filter (\<lambda>e. chunk_id e = 2) ?cs = [?cs ! nat (2 - 1)]" by simp
  from len ids a b c show ?thesis by simp
qed

section \<open>Proofs: the run commands do not read the eval flag\<close>

lemma first_where_map:
  "(\<And>x. p (u x) = p x) \<Longrightarrow> first_where p (map u xs) = map_option u (first_where p xs)"
  by (induction xs) (auto simp: first_where_def)

lemma push_codeRanges_map:
  "(\<And>c. chunk_id (u c) = chunk_id c) \<Longrightarrow> (\<And>c. codeRange (u c) = codeRange c) \<Longrightarrow>
   push_codeRanges (map u chunks) ids = push_codeRanges chunks ids"
  by (induction ids) (auto simp: first_where_map split: option.splits sum.splits)

lemma getCurrentChunk_map:
  "(\<And>c. startLine (u c) = startLine c) \<Longrightarrow>
   getCurrentChunk t (map u chunks) line
     = map_sum id (map_option u) (getCurrentChunk t chunks line)"
  by (simp add: getCurrentChunk_def Let_def first_where_map split: sum.splits)

lemma getPreviousChunk_map:
  "(\<And>c. startLine (u c) = startLine c) \<Longrightarrow> (\<And>c. endLine (u c) = endLine c) \<Longrightarrow>
   (\<And>c. chunk_id (u c) = chunk_id c) \<Longrightarrow>
   getPreviousChunk t (map u chunks) line
     = map_sum id (map_option u) (getPreviousChunk t chunks line)"
  by (simp add: getPreviousChunk_def getCurrentChunk_map Let_def first_where_map
           split: sum.splits option.splits)

lemma getNextChunk_map:
  "(\<And>c. startLine (u c) = startLine c) \<Longrightarrow> (\<And>c. chunk_id (u c) = chunk_id c) \<Longrightarrow>
   getNextChunk t (map u chunks) line
     = map_sum id (map_option u) (getNextChunk t chunks line)"
  by (simp add: getNextChunk_def getCurrentChunk_map Let_def first_where_map
           split: sum.splits option.splits)

lemma push_codeRanges_ids:
  "map chunk_id cs = [1 .. int (length cs)] \<Longrightarrow>
   \<forall>i \<in> set ids. 1 \<le> i \<and> i \<le> int (length cs) \<Longrightarrow>
   push_codeRanges cs ids = Inr (map (\<lambda>i. codeRange (cs ! nat (i - 1))) ids)"
  by (induction ids) (simp_all add: first_where_ids)

lemma map_nth_upto: "map (\<lambda>i. f (cs ! nat (i - 1))) [1 .. int (length cs)] = map f cs"
  by (rule nth_equalityI) (simp_all add: nth_upto)

lemma runAllChunks_getChunks:
  "runAllChunks (getChunks lc doc) = Inr (map codeRange (getChunks lc doc))"
  using getChunks_ok[of lc doc]
  by (simp add: runAllChunks_def chunks_ok_def push_codeRanges_ids map_nth_upto)

lemma star_it_suffix:
  assumes f: "\<And>st st'. st' \<in> set (f st) \<Longrightarrow> \<exists>u. fst st = u @ fst st' \<and> (\<forall>c \<in> set u. Q c)"
  shows "st' \<in> set (star_it f n st) \<Longrightarrow> \<exists>u. fst st = u @ fst st' \<and> (\<forall>c \<in> set u. Q c)"
proof (induction n arbitrary: st)
  case 0
  then show ?case by simp
next
  case (Suc n)
  from Suc.prems consider "st' = st"
    | st1 where "st1 \<in> set (f st)" "st' \<in> set (star_it f n st1)"
    by (auto split: if_splits)
  then show ?case
  proof cases
    case 1
    then show ?thesis by simp
  next
    case 2
    from f[OF 2(1)] obtain u where u: "fst st = u @ fst st1" "\<forall>c \<in> set u. Q c" by blast
    from Suc.IH[OF 2(2)] obtain v where v: "fst st1 = v @ fst st'" "\<forall>c \<in> set v. Q c" by blast
    from u v have "fst st = (u @ v) @ fst st'" "\<forall>c \<in> set (u @ v). Q c" by auto
    then show ?thesis by blast
  qed
qed

lemma ms_consumes:
  "rx_chars Q r \<Longrightarrow> st' \<in> set (ms r st) \<Longrightarrow> \<exists>u. fst st = u @ fst st' \<and> (\<forall>c \<in> set u. Q c)"
proof (induction r arbitrary: st st')
  case (Cls p)
  show ?case
  proof (cases "fst st")
    case Nil
    with Cls.prems show ?thesis by simp
  next
    case (Cons x xs)
    with Cls.prems have "p x" "st' = (xs, snd st)" by (auto split: if_splits)
    with Cls.prems(1) Cons have "fst st = [x] @ fst st'" "\<forall>c \<in> set [x]. Q c" by simp_all
    then show ?thesis by blast
  qed
next
  case (Seq a b)
  from Seq.prems obtain st1 where 1: "st1 \<in> set (ms a st)" "st' \<in> set (ms b st1)" by auto
  from Seq.IH(1)[OF _ 1(1)] Seq.prems obtain u where u: "fst st = u @ fst st1" "\<forall>c \<in> set u. Q c" by auto
  from Seq.IH(2)[OF _ 1(2)] Seq.prems obtain v where v: "fst st1 = v @ fst st'" "\<forall>c \<in> set v. Q c" by auto
  from u v have "fst st = (u @ v) @ fst st'" "\<forall>c \<in> set (u @ v). Q c" by auto
  then show ?case by blast
next
  case (Alt a b)
  from Alt.prems have ra: "rx_chars Q a" and rb: "rx_chars Q b"
    and "st' \<in> set (ms a st) \<or> st' \<in> set (ms b st)" by simp_all
  then show ?case using Alt.IH(1)[OF ra] Alt.IH(2)[OF rb] by blast
next
  case (Star a)
  have "\<And>st st'. st' \<in> set (ms a st) \<Longrightarrow> \<exists>u. fst st = u @ fst st' \<and> (\<forall>c \<in> set u. Q c)"
    using Star.IH Star.prems(1) by simp
  from star_it_suffix[of "ms a" Q, OF this] Star.prems(2) show ?case by simp
next
  case (Grp a)
  from Grp.prems obtain st1 where 1: "st1 \<in> set (ms a st)" "fst st' = fst st1" by auto
  from Grp.IH[OF _ 1(1)] Grp.prems(1) 1(2) show ?case by simp
next
  case Eol
  then have "st' = st" by (simp split: if_splits)
  then show ?case by simp
next
  case Eps
  then have "st' = st" by simp
  then show ?case by simp
qed

lemma rx_chars_True: "rx_chars (\<lambda>_. True) r"
  by (induction r) simp_all

lemma ms_suffix: "st' \<in> set (ms r st) \<Longrightarrow> \<exists>u. fst st = u @ fst st'"
  using ms_consumes[OF rx_chars_True, of st' r st] by blast

lemma ms_ends_eol: "ends_eol r \<Longrightarrow> st' \<in> set (ms r st) \<Longrightarrow> fst st' = []"
proof (induction r arbitrary: st rule: ends_eol.induct)
  case 1
  then show ?case by (auto split: if_splits)
qed auto

lemma ms_needs: "needs c r \<Longrightarrow> st' \<in> set (ms r st) \<Longrightarrow> \<exists>u. fst st = u @ fst st' \<and> c \<in> set u"
proof (induction r arbitrary: st st')
  case (Cls p)
  show ?case
  proof (cases "fst st")
    case Nil
    with Cls.prems show ?thesis by simp
  next
    case (Cons x xs)
    with Cls.prems have "p x" "st' = (xs, snd st)" by (auto split: if_splits)
    with Cls.prems(1) Cons have "fst st = [x] @ fst st'" "c \<in> set [x]" by simp_all
    then show ?thesis by blast
  qed
next
  case (Seq a b)
  from Seq.prems obtain st1 where 1: "st1 \<in> set (ms a st)" "st' \<in> set (ms b st1)" by auto
  from ms_suffix[OF 1(1)] obtain u0 where u0: "fst st = u0 @ fst st1" by blast
  from ms_suffix[OF 1(2)] obtain v0 where v0: "fst st1 = v0 @ fst st'" by blast
  from Seq.prems(1) have "needs c a \<or> needs c b" by simp
  then show ?case
  proof
    assume "needs c a"
    from Seq.IH(1)[OF this 1(1)] obtain u where "fst st = u @ fst st1" "c \<in> set u" by blast
    with v0 have "fst st = (u @ v0) @ fst st'" "c \<in> set (u @ v0)" by simp_all
    then show ?thesis by blast
  next
    assume "needs c b"
    from Seq.IH(2)[OF this 1(2)] obtain v where "fst st1 = v @ fst st'" "c \<in> set v" by blast
    with u0 have "fst st = (u0 @ v) @ fst st'" "c \<in> set (u0 @ v)" by simp_all
    then show ?thesis by blast
  qed
next
  case (Alt a b)
  from Alt.prems have "needs c a" "needs c b"
    and "st' \<in> set (ms a st) \<or> st' \<in> set (ms b st)" by simp_all
  then show ?case using Alt.IH by blast
next
  case (Grp a)
  from Grp.prems obtain st1 where 1: "st1 \<in> set (ms a st)" "fst st' = fst st1" by auto
  from Grp.IH[OF _ 1(1)] Grp.prems(1) 1(2) show ?case by simp
qed simp_all

lemma rx_match_some: "rx_match r l \<noteq> None \<Longrightarrow> \<exists>st'. st' \<in> set (ms r (l, None))"
  by (auto simp: rx_match_def split: list.splits)

lemma chunk_start_brace: "isChunkStartLine l \<Longrightarrow> 0x7B \<in> set l"
proof -
  assume "isChunkStartLine l"
  then have "rx_match rx_chunk_start l \<noteq> None" by (simp add: isChunkStartLine_def)
  from rx_match_some[OF this] obtain st' where st: "st' \<in> set (ms rx_chunk_start (l, None))"
    by blast
  have "needs 0x7B rx_chunk_start" by (simp add: rx_chunk_start_def ch_def Plus_def)
  from ms_needs[OF this st] show ?thesis by auto
qed

lemma chunk_end_chars: "isChunkEndLine l \<Longrightarrow> \<forall>c \<in> set l. is_s c \<or> c = 0x60"
proof -
  assume "isChunkEndLine l"
  then have "rx_match rx_chunk_end l \<noteq> None" by (simp add: isChunkEndLine_def)
  from rx_match_some[OF this] obtain st' where st: "st' \<in> set (ms rx_chunk_end (l, None))"
    by blast
  have "rx_chars (\<lambda>c. is_s c \<or> c = 0x60) rx_chunk_end"
    by (simp add: rx_chunk_end_def ch_def Plus_def)
  from ms_consumes[OF this st] obtain u where u: "l = u @ fst st'" "\<forall>c \<in> set u. is_s c \<or> c = 0x60"
    by auto
  have "ends_eol rx_chunk_end" by (simp add: rx_chunk_end_def ch_def Plus_def)
  from ms_ends_eol[OF this st] u show ?thesis by simp
qed

lemma start_not_end: "isChunkStartLine l \<Longrightarrow> \<not> isChunkEndLine l"
proof
  assume "isChunkStartLine l" "isChunkEndLine l"
  from chunk_start_brace[OF this(1)] chunk_end_chars[OF this(2)]
  have "is_s (0x7B :: jschar) \<or> (0x7B :: jschar) = 0x60" by blast
  then show False by (simp add: is_s_def)
qed

lemma getChunks_loop_lines:
  "lines_inv lines line cur chunks \<Longrightarrow>
   \<forall>c \<in> set (getChunks_loop lc lines line chunkId cur chunks). chunk_lines lines c"
proof (induction lc lines line chunkId cur chunks rule: getChunks_loop.induct)
  case (1 lc lines line chunkId cur chunks)
  show ?case
  proof (cases "line < length lines")
    case False
    then show ?thesis using "1.prems"
      by (simp add: getChunks_loop_done lines_inv_def)
  next
    case True
    show ?thesis
    proof (cases cur)
      case None
      show ?thesis
      proof (cases "isChunkStartLine (lines ! line)")
        case s: True
        have "lines_inv lines (line + 1)
                (Some (line, getChunkLanguage lc (lines ! line), getChunkOptions (lines ! line),
                       getChunkEval (getChunkOptions (lines ! line)))) chunks"
          using "1.prems" None s by (auto simp: lines_inv_def)
        from "1.IH"(1)[OF True None s this] show ?thesis
          using True None s by (simp add: getChunks_loop.simps[of lc lines line])
      next
        case s: False
        have "lines_inv lines (line + 1) None chunks"
          using "1.prems" None by (auto simp: lines_inv_def)
        from "1.IH"(2)[OF True None s this] show ?thesis
          using True None s by (simp add: getChunks_loop.simps[of lc lines line])
      qed
    next
      case (Some t)
      obtain s lang opts ev where t: "t = (s, lang, opts, ev)" by (cases t) auto
      show ?thesis
      proof (cases "isChunkEndLine (lines ! line)")
        case e: True
        let ?c = "\<lparr>chunk_id = chunkId, startLine = s, endLine = line,
                    chunk_language = lang, chunk_options = opts,
                    chunk_eval = ev,
                    chunkRange = new_Range \<lparr>pos_line = s, pos_character = 0\<rparr>
                                   \<lparr>pos_line = line, pos_character = length (lines ! line)\<rparr>,
                    codeRange = new_Range \<lparr>pos_line = s + 1, pos_character = 0\<rparr>
                                  \<lparr>pos_line = line - 1, pos_character = length (lines ! (line - 1))\<rparr>\<rparr>"
        have "lines_inv lines (line + 1) None (chunks @ [?c])"
          using "1.prems" Some t True e
          by (auto simp: lines_inv_def chunk_lines_def)
        from "1.IH"(3)[OF True Some t[symmetric] refl refl e this] show ?thesis
          using True Some t e by (simp add: getChunks_loop.simps[of lc lines line])
      next
        case e: False
        have "lines_inv lines (line + 1) cur chunks"
          using "1.prems" Some t e by (auto simp: lines_inv_def less_Suc_eq)
        from "1.IH"(4)[OF True Some t[symmetric] refl refl e this] show ?thesis
          using True Some t e by (simp add: getChunks_loop.simps[of lc lines line])
      qed
    qed
  qed
qed

lemma getChunks_lines: "\<forall>c \<in> set (getChunks lc doc). chunk_lines (split_lines doc) c"
  unfolding getChunks_def by (rule getChunks_loop_lines) (simp add: lines_inv_def)

lemma scan_up_found:
  "s < n \<Longrightarrow> n \<le> length lines \<Longrightarrow> p (lines ! s) \<Longrightarrow>
   \<forall>m. s < m \<and> m < n \<longrightarrow> \<not> p (lines ! m) \<Longrightarrow> scan_up p lines n = Inr (int s)"
proof (induction n)
  case 0
  then show ?case by simp
next
  case (Suc n)
  show ?case
  proof (cases "s = n")
    case True
    with Suc.prems show ?thesis by simp
  next
    case False
    with Suc.prems have "s < n" "\<not> p (lines ! n)" by simp_all
    with Suc show ?thesis by simp
  qed
qed

lemma scan_up_less: "n \<le> length lines \<Longrightarrow> \<exists>r. scan_up p lines n = Inr r \<and> r < int n"
proof (induction n)
  case 0
  then show ?case by simp
next
  case (Suc n)
  then obtain r where "scan_up p lines n = Inr r" "r < int n" by auto
  with Suc.prems show ?case by simp
qed

lemma scan_up_skip:
  "s \<le> n \<Longrightarrow> n \<le> length lines \<Longrightarrow> \<forall>m. s \<le> m \<and> m < n \<longrightarrow> \<not> p (lines ! m) \<Longrightarrow>
   scan_up p lines n = scan_up p lines s"
proof (induction n)
  case 0
  then show ?case by simp
next
  case (Suc n)
  show ?case
  proof (cases "s = Suc n")
    case True
    then show ?thesis by simp
  next
    case False
    with Suc.prems have "s \<le> n" "\<not> p (lines ! n)" by simp_all
    with Suc show ?thesis by simp
  qed
qed

lemma first_where_nth:
  "i < length xs \<Longrightarrow> P (xs ! i) \<Longrightarrow> \<forall>j < i. \<not> P (xs ! j) \<Longrightarrow> first_where P xs = Some (xs ! i)"
proof (induction xs arbitrary: i)
  case Nil
  then show ?case by simp
next
  case (Cons x xs)
  show ?case
  proof (cases i)
    case 0
    with Cons.prems show ?thesis by (simp add: first_where_def)
  next
    case (Suc j)
    with Cons.prems have "\<not> P x" by auto
    moreover have "first_where P xs = Some (xs ! j)"
      using Cons.prems Suc by (intro Cons.IH) auto
    ultimately show ?thesis using Suc by (simp add: first_where_def)
  qed
qed

lemma getCurrentChunk_within:
  assumes i: "i < length (getChunks lc doc)"
    and lo: "startLine (getChunks lc doc ! i) \<le> line"
    and hi: "line \<le> endLine (getChunks lc doc ! i)"
    and ns: "\<forall>m. startLine (getChunks lc doc ! i) < m \<and> m \<le> line
                 \<longrightarrow> \<not> isChunkStartLine (split_lines doc ! m)"
  shows "getCurrentChunk doc (getChunks lc doc) line = Inr (Some (getChunks lc doc ! i))"
proof -
  let ?cs = "getChunks lc doc"
  let ?ls = "split_lines doc"
  let ?c = "?cs ! i"
  have mem: "?c \<in> set ?cs" using i by simp
  with getChunks_lines[of lc doc] have cl: "chunk_lines ?ls ?c" by blast
  then have len: "endLine ?c < length ?ls" and st: "isChunkStartLine (?ls ! startLine ?c)"
    and ne: "\<forall>m. startLine ?c < m \<and> m < endLine ?c \<longrightarrow> \<not> isChunkEndLine (?ls ! m)"
    by (simp_all add: chunk_lines_def)
  have up: "scan_up isChunkStartLine ?ls (line + 1) = Inr (int (startLine ?c))"
    using lo hi len st ns by (intro scan_up_found) auto
  have "\<forall>m. startLine ?c \<le> m \<and> m < line \<longrightarrow> \<not> isChunkEndLine (?ls ! m)"
    using ne st hi start_not_end by (metis le_neq_implies_less less_le_trans)
  then have "scan_up isChunkEndLine ?ls line = scan_up isChunkEndLine ?ls (startLine ?c)"
    using lo hi len by (intro scan_up_skip) auto
  moreover obtain r where "scan_up isChunkEndLine ?ls (startLine ?c) = Inr r" "r < int (startLine ?c)"
    using scan_up_less[of "startLine ?c" ?ls isChunkEndLine] lo hi len by auto
  ultimately have en: "scan_up isChunkEndLine ?ls line = Inr r" and r: "r < int (startLine ?c)"
    by simp_all
  have ok: "chunks_ok ?cs" by (rule getChunks_ok)
  have "\<forall>j < i. startLine (?cs ! j) \<noteq> startLine ?c"
  proof (intro allI impI)
    fix j assume j: "j < i"
    with ok i have "endLine (?cs ! j) < startLine ?c"
      by (simp add: chunks_ok_def sorted_wrt_iff_nth_less)
    moreover have "?cs ! j \<in> set ?cs" using j i by simp
    with ok have "startLine (?cs ! j) < endLine (?cs ! j)" by (simp add: chunks_ok_def)
    ultimately show "startLine (?cs ! j) \<noteq> startLine ?c" by simp
  qed
  then have "first_where (\<lambda>c. int (startLine c) = int (startLine ?c)) ?cs = Some ?c"
    using i by (intro first_where_nth) simp_all
  with up en r show ?thesis by (simp add: getCurrentChunk_def Let_def)
qed

lemma getChunks_loop_starts:
  "starts_inv lines line cur chunks \<Longrightarrow> line \<le> length lines \<Longrightarrow>
   starts_ok lines (getChunks_loop lc lines line chunkId cur chunks)"
proof (induction lc lines line chunkId cur chunks rule: getChunks_loop.induct)
  case (1 lc lines line chunkId cur chunks)
  show ?case
  proof (cases "line < length lines")
    case False
    with "1.prems" have "line = length lines" by simp
    with "1.prems"(1) have "starts_ok lines chunks"
      by (fastforce simp: starts_inv_def starts_ok_def split: option.splits)
    with False show ?thesis by (simp add: getChunks_loop_done)
  next
    case True
    then have le: "line + 1 \<le> length lines" by simp
    show ?thesis
    proof (cases cur)
      case None
      show ?thesis
      proof (cases "isChunkStartLine (lines ! line)")
        case s: True
        have "starts_inv lines (line + 1)
                (Some (line, getChunkLanguage lc (lines ! line), getChunkOptions (lines ! line),
                       getChunkEval (getChunkOptions (lines ! line)))) chunks"
          using "1.prems"(1) None by (auto simp: starts_inv_def less_Suc_eq)
        from "1.IH"(1)[OF True None s this le] show ?thesis
          using True None s by (simp add: getChunks_loop.simps[of lc lines line])
      next
        case s: False
        have "starts_inv lines (line + 1) None chunks"
          using "1.prems"(1) None s by (auto simp: starts_inv_def less_Suc_eq)
        from "1.IH"(2)[OF True None s this le] show ?thesis
          using True None s by (simp add: getChunks_loop.simps[of lc lines line])
      qed
    next
      case (Some t)
      obtain s lang opts ev where t: "t = (s, lang, opts, ev)" by (cases t) auto
      show ?thesis
      proof (cases "isChunkEndLine (lines ! line)")
        case e: True
        let ?c = "\<lparr>chunk_id = chunkId, startLine = s, endLine = line,
                    chunk_language = lang, chunk_options = opts,
                    chunk_eval = ev,
                    chunkRange = new_Range \<lparr>pos_line = s, pos_character = 0\<rparr>
                                   \<lparr>pos_line = line, pos_character = length (lines ! line)\<rparr>,
                    codeRange = new_Range \<lparr>pos_line = s + 1, pos_character = 0\<rparr>
                                  \<lparr>pos_line = line - 1, pos_character = length (lines ! (line - 1))\<rparr>\<rparr>"
        have ne: "\<not> isChunkStartLine (lines ! line)" using e start_not_end by blast
        have "starts_inv lines (line + 1) None (chunks @ [?c])"
          using "1.prems"(1) Some t ne by (fastforce simp: starts_inv_def less_Suc_eq)
        from "1.IH"(3)[OF True Some t[symmetric] refl refl e this le] show ?thesis
          using True Some t e by (simp add: getChunks_loop.simps[of lc lines line])
      next
        case e: False
        have "starts_inv lines (line + 1) cur chunks"
          using "1.prems"(1) Some t by (auto simp: starts_inv_def less_Suc_eq)
        from "1.IH"(4)[OF True Some t[symmetric] refl refl e this le] show ?thesis
          using True Some t e by (simp add: getChunks_loop.simps[of lc lines line])
      qed
    qed
  qed
qed

lemma getChunks_starts: "starts_ok (split_lines doc) (getChunks lc doc)"
  unfolding getChunks_def by (rule getChunks_loop_starts) (simp_all add: starts_inv_def)

lemma scan_up_ge: "scan_up p lines n = Inr r \<Longrightarrow> - 1 \<le> r"
  by (induction n) (auto split: if_splits)

lemma scan_up_hit: "scan_up p lines n = Inr r \<Longrightarrow> 0 \<le> r \<Longrightarrow> p (lines ! nat r)"
  by (induction n) (auto split: if_splits)

lemma scan_up_none:
  "n \<le> length lines \<Longrightarrow> \<forall>m < n. \<not> p (lines ! m) \<Longrightarrow> scan_up p lines n = Inr (- 1)"
  using scan_up_skip[of 0 n lines p] by simp

lemma scan_up_above:
  "s < n \<Longrightarrow> n \<le> length lines \<Longrightarrow> p (lines ! s) \<Longrightarrow>
   \<exists>r. scan_up p lines n = Inr r \<and> int s \<le> r \<and> r < int n"
proof (induction n)
  case 0
  then show ?case by simp
next
  case (Suc n)
  show ?case
  proof (cases "s = n")
    case True
    with Suc.prems show ?thesis by simp
  next
    case False
    with Suc.prems have "s < n" "n \<le> length lines" by simp_all
    from Suc.IH[OF this Suc.prems(3)] obtain r where
      "scan_up p lines n = Inr r" "int s \<le> r" "r < int n" by blast
    with Suc.prems show ?thesis by auto
  qed
qed

lemma scan_up_inside: "scan_up p lines (Suc n) = Inr r \<Longrightarrow> n < length lines"
  by (simp split: if_splits)

lemma scan_down_ge: "scan_down ls a = Inr x \<Longrightarrow> a \<le> x"
proof (induction ls arbitrary: a)
  case Nil
  then show ?case by simp
next
  case (Cons l ls)
  show ?case
  proof (cases "isChunkStartLine l")
    case True
    with Cons.prems show ?thesis by simp
  next
    case False
    with Cons.prems have "scan_down ls (a + 1) = Inr x" by simp
    from Cons.IH[OF this] show ?thesis by simp
  qed
qed

lemma scan_down_found:
  "a \<le> s \<Longrightarrow> s < length lines \<Longrightarrow> isChunkStartLine (lines ! s) \<Longrightarrow>
   \<forall>m. a \<le> m \<and> m < s \<longrightarrow> \<not> isChunkStartLine (lines ! m) \<Longrightarrow>
   scan_down (drop a lines) a = Inr s"
proof (induction "s - a" arbitrary: a)
  case 0
  then have "a = s" by simp
  with "0.prems" have "drop a lines = lines ! s # drop (Suc s) lines"
    by (simp add: Cons_nth_drop_Suc)
  with "0.prems" \<open>a = s\<close> show ?case by simp
next
  case (Suc d)
  then have a: "a < s" "a < length lines" "\<not> isChunkStartLine (lines ! a)" by auto
  then have dr: "drop a lines = lines ! a # drop (Suc a) lines"
    by (simp add: Cons_nth_drop_Suc)
  have "scan_down (drop (Suc a) lines) (Suc a) = Inr s"
    using Suc.hyps(2) Suc.prems a by (intro Suc.hyps(1)) auto
  with dr a show ?case by simp
qed

lemma first_where_start:
  assumes ok: "chunks_ok cs" and i: "i < length cs"
  shows "first_where (\<lambda>c. startLine c = startLine (cs ! i)) cs = Some (cs ! i)"
proof -
  have "\<forall>j < i. startLine (cs ! j) \<noteq> startLine (cs ! i)"
  proof (intro allI impI)
    fix j assume j: "j < i"
    with ok i have "endLine (cs ! j) < startLine (cs ! i)"
      by (simp add: chunks_ok_def sorted_wrt_iff_nth_less)
    moreover have "cs ! j \<in> set cs" using j i by simp
    with ok have "startLine (cs ! j) < endLine (cs ! j)" by (simp add: chunks_ok_def)
    ultimately show "startLine (cs ! j) \<noteq> startLine (cs ! i)" by simp
  qed
  then show ?thesis using i by (intro first_where_nth) simp_all
qed

lemma first_where_no_start:
  "\<forall>c \<in> set cs. startLine c \<noteq> x \<Longrightarrow> first_where (\<lambda>c. startLine c = x) cs = None"
  by (simp add: first_where_def filter_empty_conv[THEN iffD2])

lemma gap_no_start:
  assumes j: "j < length (getChunks lc doc)"
    and lo: "m < startLine (getChunks lc doc ! j)"
    and pr: "\<forall>k < j. endLine (getChunks lc doc ! k) < m"
  shows "\<not> isChunkStartLine (split_lines doc ! m)"
proof
  let ?cs = "getChunks lc doc"
  let ?ls = "split_lines doc"
  assume st: "isChunkStartLine (?ls ! m)"
  have ok: "chunks_ok ?cs" by (rule getChunks_ok)
  have mem: "?cs ! j \<in> set ?cs" using j by simp
  with getChunks_lines[of lc doc] have "chunk_lines ?ls (?cs ! j)" by blast
  then have len: "endLine (?cs ! j) < length ?ls" by (simp add: chunk_lines_def)
  from ok mem have se: "startLine (?cs ! j) < endLine (?cs ! j)" by (simp add: chunks_ok_def)
  with lo len have m: "m < length ?ls" by simp
  from getChunks_starts[of doc lc] m st
  consider c where "c \<in> set ?cs" "startLine c \<le> m" "m \<le> endLine c"
    | "\<forall>c \<in> set ?cs. endLine c < m"
    unfolding starts_ok_def by blast
  then show False
  proof cases
    case 1
    then obtain k where k: "k < length ?cs" "c = ?cs ! k" by (auto simp: in_set_conv_nth)
    consider "k < j" | "k = j" | "j < k" by linarith
    then show False
    proof cases
      case 1
      with pr k \<open>m \<le> endLine c\<close> show False by auto
    next
      case 2
      with k lo \<open>startLine c \<le> m\<close> show False by simp
    next
      case 3
      with ok k have "endLine (?cs ! j) < startLine (?cs ! k)"
        by (simp add: chunks_ok_def sorted_wrt_iff_nth_less)
      with se lo k \<open>startLine c \<le> m\<close> show False by simp
    qed
  next
    case 2
    with mem have "endLine (?cs ! j) < m" by blast
    with se lo show False by simp
  qed
qed

lemma getCurrentChunk_between:
  assumes j: "j < length (getChunks lc doc)"
    and lo: "line < startLine (getChunks lc doc ! j)"
    and pr: "\<forall>k < j. endLine (getChunks lc doc ! k) < line"
  shows "getCurrentChunk doc (getChunks lc doc) line = Inr (Some (getChunks lc doc ! j))"
proof -
  let ?cs = "getChunks lc doc"
  let ?ls = "split_lines doc"
  let ?c = "?cs ! j"
  have ok: "chunks_ok ?cs" by (rule getChunks_ok)
  have mem: "?c \<in> set ?cs" using j by simp
  with getChunks_lines[of lc doc] have cl: "chunk_lines ?ls ?c" by blast
  then have len: "endLine ?c < length ?ls" and st: "isChunkStartLine (?ls ! startLine ?c)"
    by (simp_all add: chunk_lines_def)
  from ok mem have se: "startLine ?c < endLine ?c" by (simp add: chunks_ok_def)
  have ll: "line < length ?ls" using lo se len by simp
  have "\<exists>r1 r2. scan_up isChunkStartLine ?ls (line + 1) = Inr r1
          \<and> scan_up isChunkEndLine ?ls line = Inr r2 \<and> \<not> r2 < r1"
  proof (cases "j = 0")
    case True
    have "\<forall>m < line + 1. \<not> isChunkStartLine (?ls ! m)"
    proof (intro allI impI)
      fix m assume "m < line + 1"
      with lo have "m < startLine ?c" by simp
      from gap_no_start[OF j this] True show "\<not> isChunkStartLine (?ls ! m)" by simp
    qed
    then have "scan_up isChunkStartLine ?ls (line + 1) = Inr (- 1)"
      using ll by (intro scan_up_none) simp_all
    moreover obtain r2 where r2: "scan_up isChunkEndLine ?ls line = Inr r2"
      using scan_up_less[of line ?ls isChunkEndLine] ll by auto
    moreover from scan_up_ge[OF r2] have "\<not> r2 < - 1" by simp
    ultimately show ?thesis by blast
  next
    case False
    let ?p = "?cs ! (j - 1)"
    have pm: "?p \<in> set ?cs" using j by simp
    with getChunks_lines[of lc doc] have "chunk_lines ?ls ?p" by blast
    then have pe: "isChunkEndLine (?ls ! endLine ?p)" by (simp add: chunk_lines_def)
    then have pn: "\<not> isChunkStartLine (?ls ! endLine ?p)" using start_not_end by blast
    from pr False have el: "endLine ?p < line" by simp
    have "\<forall>m. endLine ?p \<le> m \<and> m < line + 1 \<longrightarrow> \<not> isChunkStartLine (?ls ! m)"
    proof (intro allI impI)
      fix m assume m: "endLine ?p \<le> m \<and> m < line + 1"
      show "\<not> isChunkStartLine (?ls ! m)"
      proof (cases "m = endLine ?p")
        case True
        with pn show ?thesis by simp
      next
        case ne: False
        have "\<forall>k < j. endLine (?cs ! k) < m"
        proof (intro allI impI)
          fix k assume k: "k < j"
          show "endLine (?cs ! k) < m"
          proof (cases "k = j - 1")
            case True
            with m ne show ?thesis by simp
          next
            case False
            with k have "k < j - 1" by simp
            with ok j have "endLine (?cs ! k) < startLine ?p"
              by (simp add: chunks_ok_def sorted_wrt_iff_nth_less)
            moreover from ok pm have "startLine ?p < endLine ?p" by (simp add: chunks_ok_def)
            ultimately show ?thesis using m by simp
          qed
        qed
        moreover from m lo have "m < startLine ?c" by simp
        ultimately show ?thesis using gap_no_start[OF j] by blast
      qed
    qed
    then have "scan_up isChunkStartLine ?ls (line + 1) = scan_up isChunkStartLine ?ls (endLine ?p)"
      using el ll by (intro scan_up_skip) simp_all
    moreover obtain r1 where "scan_up isChunkStartLine ?ls (endLine ?p) = Inr r1" "r1 < int (endLine ?p)"
      using scan_up_less[of "endLine ?p" ?ls isChunkStartLine] el ll by auto
    moreover obtain r2 where "scan_up isChunkEndLine ?ls line = Inr r2" "int (endLine ?p) \<le> r2"
      using scan_up_above[of "endLine ?p" line ?ls isChunkEndLine] el ll pe by auto
    ultimately show ?thesis by auto
  qed
  then obtain r1 r2 where r: "scan_up isChunkStartLine ?ls (line + 1) = Inr r1"
    "scan_up isChunkEndLine ?ls line = Inr r2" "\<not> r2 < r1" by blast
  have "\<forall>m. line + 1 \<le> m \<and> m < startLine ?c \<longrightarrow> \<not> isChunkStartLine (?ls ! m)"
  proof (intro allI impI)
    fix m assume m: "line + 1 \<le> m \<and> m < startLine ?c"
    with pr have "\<forall>k < j. endLine (?cs ! k) < m" by auto
    with m show "\<not> isChunkStartLine (?ls ! m)" using gap_no_start[OF j] by blast
  qed
  then have dn: "scan_down (drop (line + 1) ?ls) (line + 1) = Inr (startLine ?c)"
    using lo se len st by (intro scan_down_found) simp_all
  from r dn first_where_start[OF ok j] show ?thesis
    by (simp add: getCurrentChunk_def Let_def)
qed

lemma getCurrentChunk_below:
  assumes be: "\<forall>c \<in> set (getChunks lc doc). endLine c < line"
  shows "getCurrentChunk doc (getChunks lc doc) line = Inl TypeError
         \<or> getCurrentChunk doc (getChunks lc doc) line = Inr None"
proof -
  let ?cs = "getChunks lc doc"
  let ?ls = "split_lines doc"
  have ok: "chunks_ok ?cs" by (rule getChunks_ok)
  show ?thesis
  proof (cases "scan_up isChunkStartLine ?ls (line + 1)")
    case (Inl e)
    then show ?thesis by (cases e) (simp add: getCurrentChunk_def Let_def)
  next
    case r1: (Inr r1)
    then have ll: "line < length ?ls" using scan_up_inside[of isChunkStartLine ?ls line r1] by simp
    show ?thesis
    proof (cases "scan_up isChunkEndLine ?ls line")
      case (Inl e)
      with r1 show ?thesis by (cases e) (simp add: getCurrentChunk_def Let_def)
    next
      case r2: (Inr r2)
      show ?thesis
      proof (cases "r2 < r1")
        case True
        have "\<forall>c \<in> set ?cs. int (startLine c) \<noteq> r1"
        proof
          fix c assume c: "c \<in> set ?cs"
          with getChunks_lines[of lc doc] have "chunk_lines ?ls c" by blast
          then have "isChunkEndLine (?ls ! endLine c)" by (simp add: chunk_lines_def)
          moreover from be c have "endLine c < line" by blast
          ultimately obtain r where "scan_up isChunkEndLine ?ls line = Inr r" "int (endLine c) \<le> r"
            using scan_up_above[of "endLine c" line ?ls isChunkEndLine] ll by auto
          with r2 have "int (endLine c) \<le> r2" by simp
          moreover from ok c have "startLine c < endLine c" by (simp add: chunks_ok_def)
          ultimately show "int (startLine c) \<noteq> r1" using True by simp
        qed
        then have "first_where (\<lambda>i. int (startLine i) = r1) ?cs = None"
          by (simp add: first_where_def filter_empty_conv[THEN iffD2])
        with r1 r2 True show ?thesis by (simp add: getCurrentChunk_def Let_def)
      next
        case False
        show ?thesis
        proof (cases "scan_down (drop (line + 1) ?ls) (line + 1)")
          case (Inl e)
          with r1 r2 False show ?thesis by (cases e) (simp add: getCurrentChunk_def Let_def)
        next
          case (Inr x)
          from scan_down_ge[OF this] have x: "line + 1 \<le> x" .
          have "\<forall>c \<in> set ?cs. startLine c \<noteq> x"
          proof
            fix c assume c: "c \<in> set ?cs"
            from be c have "endLine c < line" by blast
            moreover from ok c have "startLine c < endLine c" by (simp add: chunks_ok_def)
            ultimately show "startLine c \<noteq> x" using x by simp
          qed
          then have "first_where (\<lambda>i. startLine i = x) ?cs = None" by (rule first_where_no_start)
          with r1 r2 False Inr show ?thesis by (simp add: getCurrentChunk_def Let_def)
        qed
      qed
    qed
  qed
qed

lemma getCurrentChunk_nested:
  assumes i: "i < length (getChunks lc doc)"
    and lo: "startLine (getChunks lc doc ! i) < m"
    and ml: "m \<le> line"
    and hi: "line \<le> endLine (getChunks lc doc ! i)"
    and sm: "isChunkStartLine (split_lines doc ! m)"
  shows "getCurrentChunk doc (getChunks lc doc) line = Inr None"
proof -
  let ?cs = "getChunks lc doc"
  let ?ls = "split_lines doc"
  let ?c = "?cs ! i"
  have ok: "chunks_ok ?cs" by (rule getChunks_ok)
  have mem: "?c \<in> set ?cs" using i by simp
  with getChunks_lines[of lc doc] have cl: "chunk_lines ?ls ?c" by blast
  then have len: "endLine ?c < length ?ls" and st: "isChunkStartLine (?ls ! startLine ?c)"
    and en: "isChunkEndLine (?ls ! endLine ?c)"
    and ne: "\<forall>m. startLine ?c < m \<and> m < endLine ?c \<longrightarrow> \<not> isChunkEndLine (?ls ! m)"
    by (simp_all add: chunk_lines_def)
  obtain r1 where r1: "scan_up isChunkStartLine ?ls (line + 1) = Inr r1" "int m \<le> r1" "r1 < int (line + 1)"
    using scan_up_above[of m "line + 1" ?ls isChunkStartLine] ml hi len sm by auto
  then have r1s: "isChunkStartLine (?ls ! nat r1)" using scan_up_hit[of isChunkStartLine ?ls "line + 1" r1] by simp
  have "nat r1 \<noteq> endLine ?c" using r1s en start_not_end by metis
  with r1 hi have r1e: "nat r1 < endLine ?c" by simp
  have "\<forall>m. startLine ?c \<le> m \<and> m < line \<longrightarrow> \<not> isChunkEndLine (?ls ! m)"
    using ne st hi start_not_end by (metis le_neq_implies_less less_le_trans)
  then have "scan_up isChunkEndLine ?ls line = scan_up isChunkEndLine ?ls (startLine ?c)"
    using lo ml hi len by (intro scan_up_skip) auto
  moreover obtain r2 where "scan_up isChunkEndLine ?ls (startLine ?c) = Inr r2" "r2 < int (startLine ?c)"
    using scan_up_less[of "startLine ?c" ?ls isChunkEndLine] lo ml hi len by auto
  ultimately have r2: "scan_up isChunkEndLine ?ls line = Inr r2" "r2 < int (startLine ?c)"
    by simp_all
  have "\<forall>c \<in> set ?cs. int (startLine c) \<noteq> r1"
  proof
    fix c assume "c \<in> set ?cs"
    then obtain k where k: "k < length ?cs" "c = ?cs ! k" by (auto simp: in_set_conv_nth)
    consider "k < i" | "k = i" | "i < k" by linarith
    then show "int (startLine c) \<noteq> r1"
    proof cases
      case 1
      with ok i have "endLine (?cs ! k) < startLine ?c"
        by (simp add: chunks_ok_def sorted_wrt_iff_nth_less)
      moreover from ok k have "startLine (?cs ! k) < endLine (?cs ! k)" by (simp add: chunks_ok_def)
      ultimately show ?thesis using k lo r1 by simp
    next
      case 2
      with k lo r1 show ?thesis by simp
    next
      case 3
      with ok k have "endLine ?c < startLine (?cs ! k)"
        by (simp add: chunks_ok_def sorted_wrt_iff_nth_less)
      with r1e k show ?thesis by simp
    qed
  qed
  then have "first_where (\<lambda>i. int (startLine i) = r1) ?cs = None"
    by (simp add: first_where_def filter_empty_conv[THEN iffD2])
  with r1 r2 lo show ?thesis by (simp add: getCurrentChunk_def Let_def)
qed

lemma first_where_ids_none:
  "map f xs = [1 .. int (length xs)] \<Longrightarrow> i < 1 \<or> int (length xs) < i \<Longrightarrow>
   first_where (\<lambda>e. f e = i) xs = None"
proof -
  assume m: "map f xs = [1 .. int (length xs)]" and i: "i < 1 \<or> int (length xs) < i"
  have "\<forall>e \<in> set xs. f e \<noteq> i"
  proof
    fix e assume "e \<in> set xs"
    then have "f e \<in> set (map f xs)" by simp
    then show "f e \<noteq> i" unfolding m using i by auto
  qed
  then have "filter (\<lambda>e. f e = i) xs = []" by (simp add: filter_empty_conv)
  then show ?thesis by (simp add: first_where_def)
qed

lemma map_upto_take:
  "b \<le> length cs \<Longrightarrow> map (\<lambda>k. f (cs ! nat (k - 1))) [1 .. int b] = take b (map f cs)"
  by (rule nth_equalityI) (simp_all add: nth_upto)

lemma map_upto_drop:
  "map (\<lambda>k. f (cs ! nat (k - 1))) [int a + 1 .. int (length cs)] = drop a (map f cs)"
  by (rule nth_equalityI) (auto simp: nth_upto nat_add_distrib)

lemma ids_nth: "map f xs = [1 .. int (length xs)] \<Longrightarrow> i < length xs \<Longrightarrow> f (xs ! i) = int i + 1"
proof -
  assume m: "map f xs = [1 .. int (length xs)]" and i: "i < length xs"
  have "f (xs ! i) = map f xs ! i" using i by simp
  also have "\<dots> = [1 .. int (length xs)] ! i" by (simp only: m)
  also have "\<dots> = 1 + int i" using i by (simp add: nth_upto)
  finally show ?thesis by simp
qed

lemma run_within:
  assumes i: "i < length (getChunks lc doc)"
    and lo: "startLine (getChunks lc doc ! i) \<le> line"
    and hi: "line \<le> endLine (getChunks lc doc ! i)"
    and ns: "\<forall>m. startLine (getChunks lc doc ! i) < m \<and> m \<le> line
                 \<longrightarrow> \<not> isChunkStartLine (split_lines doc ! m)"
  shows "runCurrentChunk doc (getChunks lc doc) line = Inr [codeRange (getChunks lc doc ! i)]"
    and "runAboveChunks doc (getChunks lc doc) line
           = (if i = 0 then Inl TypeError else Inr (take i (map codeRange (getChunks lc doc))))"
    and "runBelowChunks doc (getChunks lc doc) line
           = (if i + 1 = length (getChunks lc doc) then Inl TypeError
              else Inr (drop (i + 1) (map codeRange (getChunks lc doc))))"
    and "runCurrentAndBelowChunks doc (getChunks lc doc) line
           = Inr (drop i (map codeRange (getChunks lc doc)))"
proof -
  let ?cs = "getChunks lc doc"
  have cur: "getCurrentChunk doc ?cs line = Inr (Some (?cs ! i))"
    using assms by (rule getCurrentChunk_within)
  have ids: "map chunk_id ?cs = [1 .. int (length ?cs)]"
    using getChunks_ok[of lc doc] by (simp add: chunks_ok_def)
  have id: "chunk_id (?cs ! i) = int i + 1" using ids i by (rule ids_nth)
  show "runCurrentChunk doc ?cs line = Inr [codeRange (?cs ! i)]"
    by (simp add: runCurrentChunk_def cur)
  show "runAboveChunks doc ?cs line
           = (if i = 0 then Inl TypeError else Inr (take i (map codeRange ?cs)))"
  proof (cases "i = 0")
    case True
    have "first_where (\<lambda>e. chunk_id e = chunk_id (?cs ! i) - 1) ?cs = None"
      unfolding id using ids by (rule first_where_ids_none) (use True in simp)
    then have "getPreviousChunk doc ?cs line = Inr None"
      using hi by (simp add: getPreviousChunk_def cur Let_def)
    with True show ?thesis by (simp add: runAboveChunks_def)
  next
    case False
    have fw: "first_where (\<lambda>e. chunk_id e = chunk_id (?cs ! i) - 1) ?cs
                = Some (?cs ! nat (chunk_id (?cs ! i) - 1 - 1))"
      using ids False i by (intro first_where_ids) (simp_all add: id)
    have idx: "nat (chunk_id (?cs ! i) - 1 - 1) = i - 1" by (simp add: id)
    from fw[unfolded idx] have prev: "getPreviousChunk doc ?cs line = Inr (Some (?cs ! (i - 1)))"
      using hi by (simp add: getPreviousChunk_def cur Let_def)
    have pid: "chunk_id (?cs ! (i - 1)) = int i"
      using ids_nth[OF ids, of "i - 1"] i False by simp
    have "push_codeRanges ?cs [1 .. int i] = Inr (map (\<lambda>k. codeRange (?cs ! nat (k - 1))) [1 .. int i])"
      using ids i by (intro push_codeRanges_ids) auto
    also have "map (\<lambda>k. codeRange (?cs ! nat (k - 1))) [1 .. int i] = take i (map codeRange ?cs)"
      using i by (intro map_upto_take) simp
    finally show ?thesis using False pid by (simp add: runAboveChunks_def prev)
  qed
  show "runBelowChunks doc ?cs line
           = (if i + 1 = length ?cs then Inl TypeError else Inr (drop (i + 1) (map codeRange ?cs)))"
  proof (cases "i + 1 = length ?cs")
    case True
    have "first_where (\<lambda>e. chunk_id e = chunk_id (?cs ! i) + 1) ?cs = None"
      unfolding id using ids by (rule first_where_ids_none) (use True in simp)
    then have "getNextChunk doc ?cs line = Inr None"
      using lo by (simp add: getNextChunk_def cur Let_def)
    with True show ?thesis by (simp add: runBelowChunks_def)
  next
    case False
    with i have i1: "i + 1 < length ?cs" by simp
    have fw: "first_where (\<lambda>e. chunk_id e = chunk_id (?cs ! i) + 1) ?cs
                = Some (?cs ! nat (chunk_id (?cs ! i) + 1 - 1))"
      using ids i1 by (intro first_where_ids) (simp_all add: id)
    have idx: "nat (chunk_id (?cs ! i) + 1 - 1) = i + 1" by (simp add: id)
    from fw[unfolded idx] have nx: "getNextChunk doc ?cs line = Inr (Some (?cs ! (i + 1)))"
      using lo by (simp add: getNextChunk_def cur Let_def)
    have nid: "chunk_id (?cs ! (i + 1)) = int (i + 1) + 1"
      using ids i1 by (rule ids_nth)
    have "push_codeRanges ?cs [int (i + 1) + 1 .. int (length ?cs)]
            = Inr (map (\<lambda>k. codeRange (?cs ! nat (k - 1))) [int (i + 1) + 1 .. int (length ?cs)])"
      using ids by (intro push_codeRanges_ids) auto
    also have "map (\<lambda>k. codeRange (?cs ! nat (k - 1))) [int (i + 1) + 1 .. int (length ?cs)]
                 = drop (i + 1) (map codeRange ?cs)"
      by (rule map_upto_drop)
    finally show ?thesis using False nid by (simp add: runBelowChunks_def nx)
  qed
  have "push_codeRanges ?cs [int i + 1 .. int (length ?cs)]
          = Inr (map (\<lambda>k. codeRange (?cs ! nat (k - 1))) [int i + 1 .. int (length ?cs)])"
    using ids by (intro push_codeRanges_ids) auto
  also have "map (\<lambda>k. codeRange (?cs ! nat (k - 1))) [int i + 1 .. int (length ?cs)]
               = drop i (map codeRange ?cs)"
    by (rule map_upto_drop)
  finally show "runCurrentAndBelowChunks doc ?cs line = Inr (drop i (map codeRange ?cs))"
    by (simp add: runCurrentAndBelowChunks_def cur id)
qed

lemma run_between:
  assumes j: "j < length (getChunks lc doc)"
    and lo: "line < startLine (getChunks lc doc ! j)"
    and pr: "\<forall>k < j. endLine (getChunks lc doc ! k) < line"
  shows "runCurrentChunk doc (getChunks lc doc) line = Inr [codeRange (getChunks lc doc ! j)]"
    and "runAboveChunks doc (getChunks lc doc) line
           = (if j = 0 then Inl TypeError else Inr (take j (map codeRange (getChunks lc doc))))"
    and "runBelowChunks doc (getChunks lc doc) line
           = Inr (drop j (map codeRange (getChunks lc doc)))"
    and "runCurrentAndBelowChunks doc (getChunks lc doc) line
           = Inr (drop j (map codeRange (getChunks lc doc)))"
proof -
  let ?cs = "getChunks lc doc"
  have cur: "getCurrentChunk doc ?cs line = Inr (Some (?cs ! j))"
    using assms by (rule getCurrentChunk_between)
  have ok: "chunks_ok ?cs" by (rule getChunks_ok)
  then have ids: "map chunk_id ?cs = [1 .. int (length ?cs)]" by (simp add: chunks_ok_def)
  have id: "chunk_id (?cs ! j) = int j + 1" using ids j by (rule ids_nth)
  from ok j have "startLine (?cs ! j) < endLine (?cs ! j)" by (simp add: chunks_ok_def)
  with lo have hi: "\<not> endLine (?cs ! j) < line" by simp
  show "runCurrentChunk doc ?cs line = Inr [codeRange (?cs ! j)]"
    by (simp add: runCurrentChunk_def cur)
  show "runAboveChunks doc ?cs line
           = (if j = 0 then Inl TypeError else Inr (take j (map codeRange ?cs)))"
  proof (cases "j = 0")
    case True
    have "first_where (\<lambda>e. chunk_id e = chunk_id (?cs ! j) - 1) ?cs = None"
      unfolding id using ids by (rule first_where_ids_none) (use True in simp)
    then have "getPreviousChunk doc ?cs line = Inr None"
      using hi by (simp add: getPreviousChunk_def cur Let_def)
    with True show ?thesis by (simp add: runAboveChunks_def)
  next
    case False
    have fw: "first_where (\<lambda>e. chunk_id e = chunk_id (?cs ! j) - 1) ?cs
                = Some (?cs ! nat (chunk_id (?cs ! j) - 1 - 1))"
      using ids False j by (intro first_where_ids) (simp_all add: id)
    have idx: "nat (chunk_id (?cs ! j) - 1 - 1) = j - 1" by (simp add: id)
    from fw[unfolded idx] have prev: "getPreviousChunk doc ?cs line = Inr (Some (?cs ! (j - 1)))"
      using hi by (simp add: getPreviousChunk_def cur Let_def)
    have pid: "chunk_id (?cs ! (j - 1)) = int j"
      using ids_nth[OF ids, of "j - 1"] j False by simp
    have "push_codeRanges ?cs [1 .. int j] = Inr (map (\<lambda>k. codeRange (?cs ! nat (k - 1))) [1 .. int j])"
      using ids j by (intro push_codeRanges_ids) auto
    also have "map (\<lambda>k. codeRange (?cs ! nat (k - 1))) [1 .. int j] = take j (map codeRange ?cs)"
      using j by (intro map_upto_take) simp
    finally show ?thesis using False pid by (simp add: runAboveChunks_def prev)
  qed
  have fw: "first_where (\<lambda>e. chunk_id e = chunk_id (?cs ! j)) ?cs
              = Some (?cs ! nat (chunk_id (?cs ! j) - 1))"
    using ids j by (intro first_where_ids) (simp_all add: id)
  have idx: "nat (chunk_id (?cs ! j) - 1) = j" by (simp add: id)
  from fw[unfolded idx] have nx: "getNextChunk doc ?cs line = Inr (Some (?cs ! j))"
    using lo by (simp add: getNextChunk_def cur Let_def)
  have "push_codeRanges ?cs [int j + 1 .. int (length ?cs)]
          = Inr (map (\<lambda>k. codeRange (?cs ! nat (k - 1))) [int j + 1 .. int (length ?cs)])"
    using ids by (intro push_codeRanges_ids) auto
  also have "map (\<lambda>k. codeRange (?cs ! nat (k - 1))) [int j + 1 .. int (length ?cs)]
               = drop j (map codeRange ?cs)"
    by (rule map_upto_drop)
  finally have pc: "push_codeRanges ?cs [int j + 1 .. int (length ?cs)]
                      = Inr (drop j (map codeRange ?cs))" .
  show "runBelowChunks doc ?cs line = Inr (drop j (map codeRange ?cs))"
    using pc by (simp add: runBelowChunks_def nx id)
  show "runCurrentAndBelowChunks doc ?cs line = Inr (drop j (map codeRange ?cs))"
    using pc by (simp add: runCurrentAndBelowChunks_def cur id)
qed

lemma run_no_current:
  assumes "getCurrentChunk doc cs line = Inl TypeError \<or> getCurrentChunk doc cs line = Inr None"
  shows "runCurrentChunk doc cs line = Inl TypeError"
    and "runAboveChunks doc cs line = Inl TypeError"
    and "runBelowChunks doc cs line = Inl TypeError"
    and "runCurrentAndBelowChunks doc cs line = Inl TypeError"
  using assms
  by (auto simp: runCurrentChunk_def runAboveChunks_def runBelowChunks_def
        runCurrentAndBelowChunks_def getPreviousChunk_def getNextChunk_def)

lemma run_below:
  assumes "\<forall>c \<in> set (getChunks lc doc). endLine c < line"
  shows "runCurrentChunk doc (getChunks lc doc) line = Inl TypeError"
    and "runAboveChunks doc (getChunks lc doc) line = Inl TypeError"
    and "runBelowChunks doc (getChunks lc doc) line = Inl TypeError"
    and "runCurrentAndBelowChunks doc (getChunks lc doc) line = Inl TypeError"
  using run_no_current[OF getCurrentChunk_below[OF assms]] by simp_all

lemma run_nested:
  assumes "i < length (getChunks lc doc)"
    and "startLine (getChunks lc doc ! i) < m"
    and "m \<le> line"
    and "line \<le> endLine (getChunks lc doc ! i)"
    and "isChunkStartLine (split_lines doc ! m)"
  shows "runCurrentChunk doc (getChunks lc doc) line = Inl TypeError"
    and "runAboveChunks doc (getChunks lc doc) line = Inl TypeError"
    and "runBelowChunks doc (getChunks lc doc) line = Inl TypeError"
    and "runCurrentAndBelowChunks doc (getChunks lc doc) line = Inl TypeError"
  using run_no_current[OF disjI2[OF getCurrentChunk_nested[OF assms]]] by simp_all

lemma run_eval_map:
  "runCurrentChunk t (map (\<lambda>c. c\<lparr>chunk_eval := g c\<rparr>) chunks) line = runCurrentChunk t chunks line"
  "runAboveChunks t (map (\<lambda>c. c\<lparr>chunk_eval := g c\<rparr>) chunks) line = runAboveChunks t chunks line"
  "runBelowChunks t (map (\<lambda>c. c\<lparr>chunk_eval := g c\<rparr>) chunks) line = runBelowChunks t chunks line"
  "runCurrentAndBelowChunks t (map (\<lambda>c. c\<lparr>chunk_eval := g c\<rparr>) chunks) line
     = runCurrentAndBelowChunks t chunks line"
  "runAllChunks (map (\<lambda>c. c\<lparr>chunk_eval := g c\<rparr>) chunks) = runAllChunks chunks"
proof -
  let ?u = "\<lambda>c. c\<lparr>chunk_eval := g c\<rparr>"
  show "runCurrentChunk t (map ?u chunks) line = runCurrentChunk t chunks line"
    by (simp add: runCurrentChunk_def getCurrentChunk_map split: sum.splits option.splits)
  show "runAboveChunks t (map ?u chunks) line = runAboveChunks t chunks line"
    by (simp add: runAboveChunks_def getPreviousChunk_map push_codeRanges_map
             split: sum.splits option.splits)
  show "runBelowChunks t (map ?u chunks) line = runBelowChunks t chunks line"
    by (simp add: runBelowChunks_def getNextChunk_map push_codeRanges_map
             split: sum.splits option.splits)
  show "runCurrentAndBelowChunks t (map ?u chunks) line
             = runCurrentAndBelowChunks t chunks line"
    by (simp add: runCurrentAndBelowChunks_def getCurrentChunk_map push_codeRanges_map
             split: sum.splits option.splits)
  show "runAllChunks (map ?u chunks) = runAllChunks chunks"
    by (simp add: runAllChunks_def push_codeRanges_map)
qed

text \<open>
  C10. The eval flag of a chunk never affects which chunks are executed. Whatever the
  eval fields are set to (\<open>g\<close> gives each chunk a new flag), each of \<open>runCurrentChunk\<close>,
  \<open>runAboveChunks\<close>, \<open>runBelowChunks\<close>, \<open>runCurrentAndBelowChunks\<close> and \<open>runAllChunks\<close>
  hands the same code ranges to the terminal, or throws the same error. And the ranges
  are those of the selected chunks, all of them, for every position of the cursor in a
  document and its chunks. \<open>runAllChunks\<close> hands over the code range of every chunk, in
  order. With the cursor on a line of the chunk of index \<open>i\<close> (from its start line to
  its end line), and no line after the start line up to the cursor being itself a chunk
  start line, \<open>runCurrentChunk\<close> hands over the code range of that chunk,
  \<open>runAboveChunks\<close> those of all chunks before it, \<open>runBelowChunks\<close> those of all chunks
  after it, and \<open>runCurrentAndBelowChunks\<close> those of the chunk and all chunks after it;
  in the first chunk \<open>runAboveChunks\<close> throws, and in the last chunk \<open>runBelowChunks\<close>
  throws, as each reads the id of a chunk that does not exist. With the cursor above
  the chunk of index \<open>i\<close> and below every chunk before it, that chunk is the current
  one: \<open>runCurrentChunk\<close> hands over its code range, \<open>runAboveChunks\<close> those of all
  chunks before it (it throws when there is none), and \<open>runBelowChunks\<close> and
  \<open>runCurrentAndBelowChunks\<close> those of the chunk and all chunks after it. With the
  cursor in a chunk at or below a second chunk start line \<open>n\<close> of that chunk, or below
  the end of every chunk, the four commands throw.
\<close>

theorem run_commands_ignore_eval:
  "runCurrentChunk t (map (\<lambda>c. c\<lparr>chunk_eval := g c\<rparr>) chunks) line = runCurrentChunk t chunks line
   \<and> runAboveChunks t (map (\<lambda>c. c\<lparr>chunk_eval := g c\<rparr>) chunks) line = runAboveChunks t chunks line
   \<and> runBelowChunks t (map (\<lambda>c. c\<lparr>chunk_eval := g c\<rparr>) chunks) line = runBelowChunks t chunks line
   \<and> runCurrentAndBelowChunks t (map (\<lambda>c. c\<lparr>chunk_eval := g c\<rparr>) chunks) line
       = runCurrentAndBelowChunks t chunks line
   \<and> runAllChunks (map (\<lambda>c. c\<lparr>chunk_eval := g c\<rparr>) chunks) = runAllChunks chunks
   \<and> runAllChunks (map (\<lambda>c. c\<lparr>chunk_eval := g c\<rparr>) (getChunks lc doc))
       = Inr (map codeRange (getChunks lc doc))
   \<and> (i < length (getChunks lc doc)
        \<and> startLine (getChunks lc doc ! i) \<le> line \<and> line \<le> endLine (getChunks lc doc ! i)
        \<and> (\<forall>m. startLine (getChunks lc doc ! i) < m \<and> m \<le> line
                 \<longrightarrow> \<not> isChunkStartLine (split_lines doc ! m)) \<longrightarrow>
        runCurrentChunk doc (map (\<lambda>c. c\<lparr>chunk_eval := g c\<rparr>) (getChunks lc doc)) line
          = Inr [codeRange (getChunks lc doc ! i)]
        \<and> runAboveChunks doc (map (\<lambda>c. c\<lparr>chunk_eval := g c\<rparr>) (getChunks lc doc)) line
            = (if i = 0 then Inl TypeError else Inr (take i (map codeRange (getChunks lc doc))))
        \<and> runBelowChunks doc (map (\<lambda>c. c\<lparr>chunk_eval := g c\<rparr>) (getChunks lc doc)) line
            = (if i + 1 = length (getChunks lc doc) then Inl TypeError
               else Inr (drop (i + 1) (map codeRange (getChunks lc doc))))
        \<and> runCurrentAndBelowChunks doc (map (\<lambda>c. c\<lparr>chunk_eval := g c\<rparr>) (getChunks lc doc)) line
            = Inr (drop i (map codeRange (getChunks lc doc))))
   \<and> (i < length (getChunks lc doc)
        \<and> line < startLine (getChunks lc doc ! i)
        \<and> (\<forall>k < i. endLine (getChunks lc doc ! k) < line) \<longrightarrow>
        runCurrentChunk doc (map (\<lambda>c. c\<lparr>chunk_eval := g c\<rparr>) (getChunks lc doc)) line
          = Inr [codeRange (getChunks lc doc ! i)]
        \<and> runAboveChunks doc (map (\<lambda>c. c\<lparr>chunk_eval := g c\<rparr>) (getChunks lc doc)) line
            = (if i = 0 then Inl TypeError else Inr (take i (map codeRange (getChunks lc doc))))
        \<and> runBelowChunks doc (map (\<lambda>c. c\<lparr>chunk_eval := g c\<rparr>) (getChunks lc doc)) line
            = Inr (drop i (map codeRange (getChunks lc doc)))
        \<and> runCurrentAndBelowChunks doc (map (\<lambda>c. c\<lparr>chunk_eval := g c\<rparr>) (getChunks lc doc)) line
            = Inr (drop i (map codeRange (getChunks lc doc))))
   \<and> ((i < length (getChunks lc doc)
         \<and> startLine (getChunks lc doc ! i) < n \<and> n \<le> line
         \<and> line \<le> endLine (getChunks lc doc ! i)
         \<and> isChunkStartLine (split_lines doc ! n))
        \<or> (\<forall>c \<in> set (getChunks lc doc). endLine c < line) \<longrightarrow>
        runCurrentChunk doc (map (\<lambda>c. c\<lparr>chunk_eval := g c\<rparr>) (getChunks lc doc)) line
          = Inl TypeError
        \<and> runAboveChunks doc (map (\<lambda>c. c\<lparr>chunk_eval := g c\<rparr>) (getChunks lc doc)) line
            = Inl TypeError
        \<and> runBelowChunks doc (map (\<lambda>c. c\<lparr>chunk_eval := g c\<rparr>) (getChunks lc doc)) line
            = Inl TypeError
        \<and> runCurrentAndBelowChunks doc (map (\<lambda>c. c\<lparr>chunk_eval := g c\<rparr>) (getChunks lc doc)) line
            = Inl TypeError)"
proof -
  let ?cs = "getChunks lc doc"
  have one: "i < length ?cs \<and> startLine (?cs ! i) \<le> line \<and> line \<le> endLine (?cs ! i)
        \<and> (\<forall>m. startLine (?cs ! i) < m \<and> m \<le> line \<longrightarrow> \<not> isChunkStartLine (split_lines doc ! m)) \<longrightarrow>
        runCurrentChunk doc ?cs line = Inr [codeRange (?cs ! i)]
        \<and> runAboveChunks doc ?cs line
            = (if i = 0 then Inl TypeError else Inr (take i (map codeRange ?cs)))
        \<and> runBelowChunks doc ?cs line
            = (if i + 1 = length ?cs then Inl TypeError else Inr (drop (i + 1) (map codeRange ?cs)))
        \<and> runCurrentAndBelowChunks doc ?cs line = Inr (drop i (map codeRange ?cs))"
    using run_within[of i lc doc line] by blast
  have two: "i < length ?cs \<and> line < startLine (?cs ! i) \<and> (\<forall>k < i. endLine (?cs ! k) < line) \<longrightarrow>
        runCurrentChunk doc ?cs line = Inr [codeRange (?cs ! i)]
        \<and> runAboveChunks doc ?cs line
            = (if i = 0 then Inl TypeError else Inr (take i (map codeRange ?cs)))
        \<and> runBelowChunks doc ?cs line = Inr (drop i (map codeRange ?cs))
        \<and> runCurrentAndBelowChunks doc ?cs line = Inr (drop i (map codeRange ?cs))"
    using run_between[of i lc doc line] by blast
  have three: "(i < length ?cs \<and> startLine (?cs ! i) < n \<and> n \<le> line \<and> line \<le> endLine (?cs ! i)
         \<and> isChunkStartLine (split_lines doc ! n))
        \<or> (\<forall>c \<in> set ?cs. endLine c < line) \<longrightarrow>
        runCurrentChunk doc ?cs line = Inl TypeError
        \<and> runAboveChunks doc ?cs line = Inl TypeError
        \<and> runBelowChunks doc ?cs line = Inl TypeError
        \<and> runCurrentAndBelowChunks doc ?cs line = Inl TypeError"
    using run_nested[of i lc doc n line] run_below[of lc doc line] by blast
  from one two three runAllChunks_getChunks[of lc doc] show ?thesis
    by (simp only: run_eval_map simp_thms)
qed

lemma eval_doc_chunks:
  "map (\<lambda>c. (chunk_id c, startLine c, endLine c, chunk_eval c)) (getChunks ascii_lower eval_doc)
     = [(1, 1, 4, False), (2, 6, 8, True)]"
  by code_simp

lemma eval_doc_line2: "isChunkStartLine (split_lines eval_doc ! 2)"
  by code_simp

lemma list2: "length xs = 2 \<Longrightarrow> xs = [xs ! 0, xs ! 1]"
  by (auto simp: eval_nat_numeral length_Suc_conv)

theorem run_commands_ignore_eval_witness:
  "map chunk_eval (getChunks ascii_lower eval_doc) = [False, True]
   \<and> runAllChunks (getChunks ascii_lower eval_doc)
       = Inr [codeRange (getChunks ascii_lower eval_doc ! 0),
              codeRange (getChunks ascii_lower eval_doc ! 1)]
   \<and> runCurrentChunk eval_doc (getChunks ascii_lower eval_doc) 6
       = Inr [codeRange (getChunks ascii_lower eval_doc ! 1)]
   \<and> runAboveChunks eval_doc (getChunks ascii_lower eval_doc) 6
       = Inr [codeRange (getChunks ascii_lower eval_doc ! 0)]
   \<and> runBelowChunks eval_doc (getChunks ascii_lower eval_doc) 6 = Inl TypeError
   \<and> runCurrentAndBelowChunks eval_doc (getChunks ascii_lower eval_doc) 6
       = Inr [codeRange (getChunks ascii_lower eval_doc ! 1)]
   \<and> runCurrentChunk eval_doc (getChunks ascii_lower eval_doc) 0
       = Inr [codeRange (getChunks ascii_lower eval_doc ! 0)]
   \<and> runAboveChunks eval_doc (getChunks ascii_lower eval_doc) 0 = Inl TypeError
   \<and> runBelowChunks eval_doc (getChunks ascii_lower eval_doc) 0
       = Inr [codeRange (getChunks ascii_lower eval_doc ! 0),
              codeRange (getChunks ascii_lower eval_doc ! 1)]
   \<and> runCurrentAndBelowChunks eval_doc (getChunks ascii_lower eval_doc) 0
       = Inr [codeRange (getChunks ascii_lower eval_doc ! 0),
              codeRange (getChunks ascii_lower eval_doc ! 1)]
   \<and> runCurrentChunk eval_doc (getChunks ascii_lower eval_doc) 5
       = Inr [codeRange (getChunks ascii_lower eval_doc ! 1)]
   \<and> runAboveChunks eval_doc (getChunks ascii_lower eval_doc) 5
       = Inr [codeRange (getChunks ascii_lower eval_doc ! 0)]
   \<and> runBelowChunks eval_doc (getChunks ascii_lower eval_doc) 5
       = Inr [codeRange (getChunks ascii_lower eval_doc ! 1)]
   \<and> runCurrentAndBelowChunks eval_doc (getChunks ascii_lower eval_doc) 5
       = Inr [codeRange (getChunks ascii_lower eval_doc ! 1)]
   \<and> runCurrentChunk eval_doc (getChunks ascii_lower eval_doc) 3 = Inl TypeError
   \<and> runAboveChunks eval_doc (getChunks ascii_lower eval_doc) 3 = Inl TypeError
   \<and> runBelowChunks eval_doc (getChunks ascii_lower eval_doc) 3 = Inl TypeError
   \<and> runCurrentAndBelowChunks eval_doc (getChunks ascii_lower eval_doc) 3 = Inl TypeError
   \<and> runCurrentChunk eval_doc (getChunks ascii_lower eval_doc) 9 = Inl TypeError
   \<and> runAboveChunks eval_doc (getChunks ascii_lower eval_doc) 9 = Inl TypeError
   \<and> runBelowChunks eval_doc (getChunks ascii_lower eval_doc) 9 = Inl TypeError
   \<and> runCurrentAndBelowChunks eval_doc (getChunks ascii_lower eval_doc) 9 = Inl TypeError"
proof -
  let ?cs = "getChunks ascii_lower eval_doc"
  note c = eval_doc_chunks
  from arg_cong[OF c, of length] have len: "length ?cs = 2" by simp
  from arg_cong[OF c, of "map (\<lambda>x. snd (snd (snd x)))"]
  have ev: "map chunk_eval ?cs = [False, True]" by (simp add: comp_def)
  from arg_cong[OF c, of "\<lambda>l. l ! 0"] len have se0: "startLine (?cs ! 0) = 1" "endLine (?cs ! 0) = 4"
    by simp_all
  from arg_cong[OF c, of "\<lambda>l. l ! 1"] len have se1: "startLine (?cs ! 1) = 6" "endLine (?cs ! 1) = 8"
    by simp_all
  have set: "set ?cs = {?cs ! 0, ?cs ! 1}"
    using arg_cong[OF list2[OF len], of set] by simp
  have same: "map (\<lambda>c. c\<lparr>chunk_eval := chunk_eval c\<rparr>) ?cs = ?cs" by (simp add: map_idI)
  have "map codeRange ?cs = map codeRange [?cs ! 0, ?cs ! 1]"
    using list2[OF len] by (rule arg_cong)
  then have ranges: "map codeRange ?cs = [codeRange (?cs ! 0), codeRange (?cs ! 1)]"
    by simp
  have pr: "\<forall>k < 1. endLine (?cs ! k) < 5" using se0 by simp
  have be: "\<forall>c \<in> set ?cs. endLine c < 9" unfolding set using se0 se1 by simp
  note T = run_commands_ignore_eval[where g = chunk_eval and lc = ascii_lower
         and doc = eval_doc and t = eval_doc and chunks = ?cs, unfolded same]
  have ns: "\<forall>m. (6::nat) < m \<and> m \<le> 6 \<longrightarrow> \<not> isChunkStartLine (split_lines eval_doc ! m)"
    by auto
  from T[where i = 1 and line = 6 and n = 0] len se1 ns ranges
  have a: "runAllChunks ?cs = Inr [codeRange (?cs ! 0), codeRange (?cs ! 1)]"
    "runCurrentChunk eval_doc ?cs 6 = Inr [codeRange (?cs ! 1)]"
    "runAboveChunks eval_doc ?cs 6 = Inr [codeRange (?cs ! 0)]"
    "runBelowChunks eval_doc ?cs 6 = Inl TypeError"
    "runCurrentAndBelowChunks eval_doc ?cs 6 = Inr [codeRange (?cs ! 1)]"
    by simp_all
  from T[where i = 0 and line = 0 and n = 0] len se0 ranges
  have b: "runCurrentChunk eval_doc ?cs 0 = Inr [codeRange (?cs ! 0)]"
    "runAboveChunks eval_doc ?cs 0 = Inl TypeError"
    "runBelowChunks eval_doc ?cs 0 = Inr [codeRange (?cs ! 0), codeRange (?cs ! 1)]"
    "runCurrentAndBelowChunks eval_doc ?cs 0 = Inr [codeRange (?cs ! 0), codeRange (?cs ! 1)]"
    by simp_all
  from T[where i = 1 and line = 5 and n = 0] len se1 pr ranges
  have c5: "runCurrentChunk eval_doc ?cs 5 = Inr [codeRange (?cs ! 1)]"
    "runAboveChunks eval_doc ?cs 5 = Inr [codeRange (?cs ! 0)]"
    "runBelowChunks eval_doc ?cs 5 = Inr [codeRange (?cs ! 1)]"
    "runCurrentAndBelowChunks eval_doc ?cs 5 = Inr [codeRange (?cs ! 1)]"
    by simp_all
  from T[where i = 0 and line = 3 and n = 2] len se0 eval_doc_line2
  have d: "runCurrentChunk eval_doc ?cs 3 = Inl TypeError"
    "runAboveChunks eval_doc ?cs 3 = Inl TypeError"
    "runBelowChunks eval_doc ?cs 3 = Inl TypeError"
    "runCurrentAndBelowChunks eval_doc ?cs 3 = Inl TypeError"
    by simp_all
  from T[where i = 0 and line = 9 and n = 0] be
  have e: "runCurrentChunk eval_doc ?cs 9 = Inl TypeError"
    "runAboveChunks eval_doc ?cs 9 = Inl TypeError"
    "runBelowChunks eval_doc ?cs 9 = Inl TypeError"
    "runCurrentAndBelowChunks eval_doc ?cs 9 = Inl TypeError"
    by simp_all
  from ev a b c5 d e show ?thesis by simp
qed

section \<open>Proofs: the length header of a request\<close>

lemma utf8_encode_length_ge: "length s \<le> length (utf8_encode s)"
  by (induction s rule: utf8_encode.induct) (auto simp: utf8_pair_def Let_def utf8_unit_def)

lemma utf8_encode_length_ascii:
  "\<forall>c \<in> set s. c < 0x80 \<Longrightarrow> length (utf8_encode s) = length s"
  by (induction s rule: utf8_encode.induct)
     (auto simp: utf8_unit_def is_high_def word_less_nat_alt word_le_nat_alt)

text \<open>
  C7. The claim is that the number in the header is the byte length of the JSON payload,
  also when the JSON holds characters outside ASCII. The code writes \<open>json.length\<close>, the
  number of UTF-16 code units. For the request with id 1 and the expression of the one
  character U+00E9, the header says 33, and the payload that follows is 34 bytes long.
\<close>

theorem content_length_counts_code_units:
  "frame \<lparr>req_id = Some 1, req_type = Eval, req_expr = Some [0xE9]\<rparr>
     = js ''Content-Length: 33'' @ [LF] @
       JSON_stringify \<lparr>req_id = Some 1, req_type = Eval, req_expr = Some [0xE9]\<rparr>
   \<and> length (utf8_encode (JSON_stringify \<lparr>req_id = Some 1, req_type = Eval,
                                           req_expr = Some [0xE9]\<rparr>)) = 34"
  by code_simp

section \<open>Proofs: the kernel\<close>

lemma settle_fields [simp]:
  "process (settle p v k) = process k" "socket (settle p v k) = socket k"
  "servers (settle p v k) = servers k" "children (settle p v k) = children k"
  "sockets (settle p v k) = sockets k" "listeners (settle p v k) = listeners k"
  "written (settle p v k) = written k" "port (settle p v k) = port k"
  "length (promises (settle p v k)) = length (promises k)"
  by (simp_all add: settle_def)

lemma settle_made_by [simp]:
  "q < length (promises k) \<Longrightarrow> made_by (promises (settle p v k) ! q) = made_by (promises k ! q)"
  by (simp add: settle_def nth_list_update)

lemma settle_state:
  "q < length (promises k) \<Longrightarrow>
   p_state (promises (settle p v k) ! q)
     = (if q = p \<and> p_state (promises k ! q) = Pending then v else p_state (promises k ! q))"
  by (auto simp: settle_def nth_list_update)

lemma by_start_settle [simp]: "by_start (settle p v k) q = by_start k q"
  by (auto simp: by_start_def)

lemma by_eval_settle [simp]: "by_eval (settle p v k) q = by_eval k q"
  by (auto simp: by_eval_def)



lemma new_Promise_fields [simp]:
  "process (snd (new_Promise f k)) = process k" "socket (snd (new_Promise f k)) = socket k"
  "servers (snd (new_Promise f k)) = servers k" "children (snd (new_Promise f k)) = children k"
  "sockets (snd (new_Promise f k)) = sockets k" "listeners (snd (new_Promise f k)) = listeners k"
  "written (snd (new_Promise f k)) = written k" "port (snd (new_Promise f k)) = port k"
  "promises (snd (new_Promise f k)) = promises k @ [\<lparr>made_by = f, p_state = Pending\<rparr>]"
  "fst (new_Promise f k) = length (promises k)"
  by (simp_all add: new_Promise_def)

lemma by_start_new [simp]:
  "by_start (snd (new_Promise f k)) q = (by_start k q \<or> (q = length (promises k) \<and> f = ByStart))"
  by (auto simp: by_start_def nth_append)

lemma by_eval_new [simp]:
  "by_eval (snd (new_Promise f k)) q = (by_eval k q \<or> (q = length (promises k) \<and> f = ByEval))"
  by (auto simp: by_eval_def nth_append)




























lemma request_promises [simp]: "promises (request r k) = promises k"
  by (simp add: request_def split: option.splits)

lemma request_fields [simp]:
  "listeners (request r k) = listeners k" "socket (request r k) = socket k"
  "sockets (request r k) = sockets k" "process (request r k) = process k"
  "children (request r k) = children k" "servers (request r k) = servers k"
  by (simp_all add: request_def split: option.splits)

lemma add_listener_fields [simp]:
  "promises (add_listener s p k) = promises k" "process (add_listener s p k) = process k"
  "socket (add_listener s p k) = socket k" "servers (add_listener s p k) = servers k"
  "children (add_listener s p k) = children k" "written (add_listener s p k) = written k"
  "port (add_listener s p k) = port k"
  "listeners (add_listener s p k) = listeners k @ [(s, p)]"
  "sockets (add_listener s p k) = (sockets k)[s := (sockets k ! s)\<lparr>sock_flowing := True\<rparr>]"
  by (simp_all add: add_listener_def)

lemma foldl_preserve:
  assumes "\<And>k x. P k \<Longrightarrow> P (f k x)" and "P k"
  shows "P (foldl f k xs)"
  using assms(2) by (induction xs arbitrary: k) (simp_all add: assms(1))

text \<open>
  What every handler keeps, and what does not depend on the sockets, is kept by every
  delivery of data.
\<close>

lemma handler_fields [simp]:
  "process (handler p d k) = process k" "socket (handler p d k) = socket k"
  "servers (handler p d k) = servers k" "children (handler p d k) = children k"
  "sockets (handler p d k) = sockets k" "written (handler p d k) = written k"
  "port (handler p d k) = port k"
  "length (promises (handler p d k)) = length (promises k)"
  by (simp_all add: handler_def Let_def split: incoming.splits option.splits)

lemma emits_preserve:
  assumes e: "\<forall>k s d. P k \<longrightarrow> P (emit s d k)"
    and b: "\<forall>k x. P (k\<lparr>sockets := x\<rparr>) = P k"
  shows "P k \<Longrightarrow> P (flow s k)" "P k \<Longrightarrow> P (on_tick k)" "P k \<Longrightarrow> P (on_data s d k)"
proof -
  have f: "P (flow s k)" if "P k" for s k
    unfolding flow_def using that e by (auto intro!: foldl_preserve[where P = P] simp: b)
  have t: "P (on_tick k)" if "P k" for k
    unfolding on_tick_def using that by (intro foldl_preserve[where P = P]) (rule f)
  show "P k \<Longrightarrow> P (flow s k)" by (rule f)
  show "P k \<Longrightarrow> P (on_tick k)" by (rule t)
  show "P k \<Longrightarrow> P (on_data s d k)" using e by (auto simp: on_data_def b intro: f)
qed

lemma deliver_preserve:
  assumes h: "\<forall>k p d. P k \<longrightarrow> P (handler p d k)"
    and b: "\<forall>k x. P (k\<lparr>sockets := x\<rparr>) = P k"
  shows "P k \<Longrightarrow> P (emit s d k)" "P k \<Longrightarrow> P (flow s k)" "P k \<Longrightarrow> P (on_tick k)"
    "P k \<Longrightarrow> P (on_data s d k)"
proof -
  have e: "P (emit s d k)" if "P k" for s d k
    unfolding emit_def using that h by (intro foldl_preserve[where P = P]) blast+
  then have "\<forall>k s d. P k \<longrightarrow> P (emit s d k)" by blast
  note d = emits_preserve[of P, OF this b]
  show "P k \<Longrightarrow> P (emit s d k)" by (rule e)
  show "P k \<Longrightarrow> P (flow s k)" by (rule d)
  show "P k \<Longrightarrow> P (on_tick k)" by (rule d)
  show "P k \<Longrightarrow> P (on_data s d k)" by (rule d)
qed


lemma handler_made_by:
  "p < length (promises k) \<Longrightarrow> made_by (promises (handler q d k) ! p) = made_by (promises k ! p)"
  by (simp add: handler_def Let_def split: incoming.splits option.splits)




lemma handler_NotJson [simp]: "handler p NotJson k = k"
  by (simp add: handler_def)

lemma foldl_same [simp]: "foldl (\<lambda>k' p. k') k ps = k"
  by (induction ps) simp_all

lemma emit_NotJson [simp]: "emit s NotJson k = k"
  by (simp add: emit_def)


lemma deliver_fields [simp]:
  "process (emit s d k) = process k" "socket (emit s d k) = socket k"
  "servers (emit s d k) = servers k" "children (emit s d k) = children k"
  "written (emit s d k) = written k" "port (emit s d k) = port k"
  "length (promises (emit s d k)) = length (promises k)"
  "process (flow s k) = process k" "socket (flow s k) = socket k"
  "servers (flow s k) = servers k" "children (flow s k) = children k"
  "written (flow s k) = written k" "port (flow s k) = port k"
  "length (promises (flow s k)) = length (promises k)"
  "process (on_tick k) = process k" "socket (on_tick k) = socket k"
  "servers (on_tick k) = servers k" "children (on_tick k) = children k"
  "written (on_tick k) = written k" "port (on_tick k) = port k"
  "length (promises (on_tick k)) = length (promises k)"
  "process (on_data s d k) = process k" "socket (on_data s d k) = socket k"
  "servers (on_data s d k) = servers k" "children (on_data s d k) = children k"
  "written (on_data s d k) = written k" "port (on_data s d k) = port k"
  "length (promises (on_data s d k)) = length (promises k)"
proof -
  let ?P = "\<lambda>k'. process k' = process k \<and> socket k' = socket k \<and> servers k' = servers k
               \<and> children k' = children k \<and> written k' = written k \<and> port k' = port k
               \<and> length (promises k') = length (promises k)"
  have h: "\<forall>k p d. ?P k \<longrightarrow> ?P (handler p d k)" by simp
  have b: "\<forall>k x. ?P (k\<lparr>sockets := x\<rparr>) = ?P k" by simp
  note d = deliver_preserve[of ?P, OF h b]
  have "?P k" by simp
  from d(1)[OF this, of s d] d(2)[OF this, of s] d(3)[OF this] d(4)[OF this, of s d]
  show "process (emit s d k) = process k" "socket (emit s d k) = socket k"
  "servers (emit s d k) = servers k" "children (emit s d k) = children k"
  "written (emit s d k) = written k" "port (emit s d k) = port k"
  "length (promises (emit s d k)) = length (promises k)"
  "process (flow s k) = process k" "socket (flow s k) = socket k"
  "servers (flow s k) = servers k" "children (flow s k) = children k"
  "written (flow s k) = written k" "port (flow s k) = port k"
  "length (promises (flow s k)) = length (promises k)"
  "process (on_tick k) = process k" "socket (on_tick k) = socket k"
  "servers (on_tick k) = servers k" "children (on_tick k) = children k"
  "written (on_tick k) = written k" "port (on_tick k) = port k"
  "length (promises (on_tick k)) = length (promises k)"
  "process (on_data s d k) = process k" "socket (on_data s d k) = socket k"
  "servers (on_data s d k) = servers k" "children (on_data s d k) = children k"
  "written (on_data s d k) = written k" "port (on_data s d k) = port k"
  "length (promises (on_data s d k)) = length (promises k)"
    by simp_all
qed

lemma deliver_made_by:
  assumes "p < length (promises k)"
  shows "made_by (promises (emit s d k) ! p) = made_by (promises k ! p)"
    "made_by (promises (flow s k) ! p) = made_by (promises k ! p)"
    "made_by (promises (on_tick k) ! p) = made_by (promises k ! p)"
    "made_by (promises (on_data s d k) ! p) = made_by (promises k ! p)"
proof -
  let ?P = "\<lambda>k'. length (promises k') = length (promises k)
                  \<and> made_by (promises k' ! p) = made_by (promises k ! p)"
  have h: "\<forall>k' q d. ?P k' \<longrightarrow> ?P (handler q d k')" using assms by (simp add: handler_made_by)
  have b: "\<forall>k x. ?P (k\<lparr>sockets := x\<rparr>) = ?P k" by simp
  note d = deliver_preserve[of ?P, OF h b]
  have "?P k" by simp
  from d(1)[OF this, of s d] d(2)[OF this, of s] d(3)[OF this] d(4)[OF this, of s d]
  show "made_by (promises (emit s d k) ! p) = made_by (promises k ! p)"
    "made_by (promises (flow s k) ! p) = made_by (promises k ! p)"
    "made_by (promises (on_tick k) ! p) = made_by (promises k ! p)"
    "made_by (promises (on_data s d k) ! p) = made_by (promises k ! p)"
    by simp_all
qed


lemma went_refl [simp]: "went a a"
  by (simp add: went_def)



lemma emit_sockets [simp]: "sockets (emit s d k) = sockets k"
  unfolding emit_def by (rule foldl_preserve[where P = "\<lambda>k'. sockets k' = sockets k"]) simp_all

lemma emits_sockets [simp]: "sockets (foldl (\<lambda>k' d. emit s d k') k ds) = sockets k"
  by (rule foldl_preserve[where P = "\<lambda>k'. sockets k' = sockets k"]) simp_all

lemma flow_sockets:
  "sockets (flow s k)
     = (if s < length (sockets k) \<and> sock_flowing (sockets k ! s)
        then (sockets k)[s := (sockets k ! s)\<lparr>sock_buffer := []\<rparr>] else sockets k)"
  by (simp add: flow_def)

lemma flow_sockets_length [simp]: "length (sockets (flow s k)) = length (sockets k)"
  by (simp add: flow_sockets)

lemma flow_sockets_other: "s' \<noteq> s \<Longrightarrow> sockets (flow s' k) ! s = sockets k ! s"
  by (simp add: flow_sockets)

lemma flow_sockets_static:
  "sock_ended (sockets (flow s' k) ! s) = sock_ended (sockets k ! s)"
  "sock_flowing (sockets (flow s' k) ! s) = sock_flowing (sockets k ! s)"
  "sock_promise (sockets (flow s' k) ! s) = sock_promise (sockets k ! s)"
  by (auto simp: flow_sockets nth_list_update)

lemma by_eval_deliver [simp]:
  "by_eval (emit s d k) p = by_eval k p" "by_eval (flow s k) p = by_eval k p"
  "by_eval (on_tick k) p = by_eval k p" "by_eval (on_data s d k) p = by_eval k p"
  by (auto simp: by_eval_def deliver_made_by)

lemma by_start_deliver [simp]:
  "by_start (emit s d k) p = by_start k p" "by_start (flow s k) p = by_start k p"
  "by_start (on_tick k) p = by_start k p" "by_start (on_data s d k) p = by_start k p"
  by (auto simp: by_start_def deliver_made_by)

text \<open>Calls and callbacks that deliver no data.\<close>

lemma quiet_refl [simp]: "quiet k k"
  by (simp add: quiet_def)
















lemma handlers_length [simp]:
  "length (promises (foldl (\<lambda>k' p. handler p d k') k ps)) = length (promises k)"
  by (induction ps arbitrary: k) simp_all


lemma by_eval_handler [simp]: "by_eval (handler q d k) p = by_eval k p"
  by (auto simp: by_eval_def handler_made_by)






lemma together_sockets [simp]: "together s p1 p2 (k\<lparr>sockets := x\<rparr>) = together s p1 p2 k"
  by (simp add: together_def both_pending_def both_resolved_def by_eval_def)





lemma both_pending_sockets [simp]: "both_pending s p1 p2 (k\<lparr>sockets := x\<rparr>) = both_pending s p1 p2 k"
  by (simp add: both_pending_def by_eval_def)

































lemma start_with_process:
  "process k = Some c \<Longrightarrow>
   process (snd (start k)) = process k \<and> servers (snd (start k)) = servers k
   \<and> children (snd (start k)) = children k \<and> socket (snd (start k)) = socket k
   \<and> p_state (promises (snd (start k)) ! fst (start k)) = Fulfilled Undefined"
  by (simp add: start_def split_def Let_def settle_state)

text \<open>
  C3. The claim is that two calls of \<open>start\<close> made before either has completed spawn one
  subprocess between them. In the code the second call finds \<open>this.process\<close> still
  undefined, because the first assigns it only in the callback of \<open>listen\<close>; each call
  makes its own server, and each server's callback spawns a child. After the two
  callbacks there are two child processes, neither killed nor exited, and
  \<open>this.process\<close> names the second only.
\<close>

theorem two_starts_two_processes:
  "let k = run [Call_start, Call_start, Ev_listening 0 5000, Ev_listening 1 5001]
   in children k = [\<lparr>child_promise = 0, child_killed = False, child_exited = False\<rparr>,
                    \<lparr>child_promise = 1, child_killed = False, child_exited = False\<rparr>]
      \<and> process k = Some 1"
  by code_simp

text \<open>
  C6 (as amended). If \<open>eval\<close> is called while the kernel has no socket, it writes no
  request and adds no listener, and the promise it returns is fulfilled at once with
  undefined: no error is raised.
\<close>

theorem eval_without_socket:
  assumes "socket k = None"
  shows "let (p, k') = kernel_eval cell k
         in p_state (promises k' ! p) = Fulfilled Undefined
            \<and> written k' = written k \<and> listeners k' = listeners k
            \<and> process k' = process k \<and> socket k' = None"
  using assms by (simp add: kernel_eval_def split_def Let_def settle_state)

theorem eval_without_socket_witness:
  "socket new_RKernel = None
   \<and> (let (p, k') = kernel_eval (cell_of 1 ''a'') new_RKernel
      in p_state (promises k' ! p) = Fulfilled Undefined \<and> written k' = [])"
proof -
  have s: "socket new_RKernel = None" by (simp add: new_RKernel_def)
  from eval_without_socket[OF s, of "cell_of 1 ''a''"] s show ?thesis
    by (simp add: split_def Let_def new_RKernel_def)
qed

text \<open>
  C6 as stated fails: \<open>eval\<close> on a new kernel, which has no socket, does not fail. Its
  promise is fulfilled, with undefined, and is not rejected with any error.
\<close>

theorem eval_without_socket_is_fulfilled:
  "let (p, k') = kernel_eval (cell_of 1 ''a'') new_RKernel
   in p_state (promises k' ! p) = Fulfilled Undefined
      \<and> p_state (promises k' ! p) \<noteq> Rejected (Thrown TypeError)"
  by code_simp

section \<open>Proofs: the notebook provider\<close>

text \<open>
  C5. The claim is that running all cells first restarts the kernel and then executes
  the cells. In the code the run-all branch calls \<open>notebook.restartKernel()\<close> without
  awaiting it, and \<open>restartKernel\<close> restarts the kernel only after the command that
  clears the outputs has completed. For an open document of one runnable cell whose
  kernel has a connection: when the call of \<open>executeCell(document, undefined)\<close> and its
  microtasks are over, the eval request of the cell (id 1) has been written to the
  socket of the running subprocess, and the restart still waits for the command. When
  the command completes, that subprocess is killed and a new one is started; the request
  is never written again, the cell stays Running and the promise of the run-all call
  stays pending.
\<close>

theorem run_all_evals_before_restart:
  "(case wrun 10 (opened @ [ExecuteCell doc1 None]) new_world of
      None \<Rightarrow> False
    | Some w \<Rightarrow>
        map_option written (notebooks w doc1)
          = Some [(0, frame \<lparr>req_id = Some 1, req_type = Eval, req_expr = Some (js ''1'')\<rparr>)]
        \<and> map_option children (notebooks w doc1)
            = Some [\<lparr>child_promise = 0, child_killed = False, child_exited = False\<rparr>]
        \<and> awaiting w ! 0 = (Command 1, Then_restart doc1))
   \<and> (case wrun 10 (opened @ [ExecuteCell doc1 None, CommandDone 1, Kernel doc1 (Ev_exit 0),
                              Kernel doc1 (Ev_end 0), Kernel doc1 (Ev_listening 1 5001),
                              Kernel doc1 (Ev_connection 1)]) new_world of
      None \<Rightarrow> False
    | Some w \<Rightarrow>
        map_option children (notebooks w doc1)
          = Some [\<lparr>child_promise = 0, child_killed = True, child_exited = True\<rparr>,
                  \<lparr>child_promise = 3, child_killed = False, child_exited = False\<rparr>]
        \<and> map_option written (notebooks w doc1)
            = Some [(0, frame \<lparr>req_id = Some 1, req_type = Eval, req_expr = Some (js ''1'')\<rparr>)]
        \<and> map runState (documents w doc1) = [Some Running]
        \<and> calls w ! 0 = Pending)"
  by code_simp

text \<open>
  C8 (as amended). Cancelling one cell whose run state is not Running does nothing and
  does not throw; for a Running cell of a document whose kernel has a socket it writes
  one cancel request with the cell's execution order as id. Cancelling all cells writes
  one cancel request with id 0 whenever the document's kernel has a socket, whatever the
  run states of the cells are. Without a socket neither writes anything.
\<close>

theorem cancel_forwarding:
  "(runState cell \<noteq> Some Running \<longrightarrow> cancelCellExecution key cell w = Inr w)
   \<and> (runState cell = Some Running \<and> notebooks w key = Some k \<and> socket k = Some s \<longrightarrow>
        cancelCellExecution key cell w
          = Inr (w\<lparr>notebooks := (notebooks w)(key \<mapsto>
                   k\<lparr>written := written k @
                        [(s, frame \<lparr>req_id = executionOrder cell, req_type = Cancel,
                                    req_expr = None\<rparr>)]\<rparr>)\<rparr>))
   \<and> (notebooks w key = Some k \<and> socket k = Some s \<longrightarrow>
        cancelAllCellsExecution key w
          = Inr (w\<lparr>notebooks := (notebooks w)(key \<mapsto>
                   k\<lparr>written := written k @
                        [(s, frame \<lparr>req_id = Some 0, req_type = Cancel, req_expr = None\<rparr>)]\<rparr>)\<rparr>))
   \<and> (notebooks w key = Some k \<and> socket k = None \<longrightarrow>
        cancelCellExecution key cell w = Inr w \<and> cancelAllCellsExecution key w = Inr w)"
  by (auto simp: cancelCellExecution_def cancelAllCellsExecution_def cancel_def request_def
                 fun_upd_idem)

lemma connected_kernel: "notebooks connected doc1 = Some (run ready)"
  by (simp add: connected_def)

lemma ready_socket: "socket (run ready) = Some 0"
  by code_simp

theorem cancel_forwarding_witness:
  "cancelCellExecution doc1 (code_cell ''1'') connected = Inr connected
   \<and> cancelCellExecution doc1 (cell_of 1 ''1'') connected
       = Inr (connected\<lparr>notebooks := (notebooks connected)(doc1 \<mapsto>
                (run ready)\<lparr>written := written (run ready) @
                   [(0, frame \<lparr>req_id = Some 1, req_type = Cancel, req_expr = None\<rparr>)]\<rparr>)\<rparr>)
   \<and> cancelAllCellsExecution doc1 connected
       = Inr (connected\<lparr>notebooks := (notebooks connected)(doc1 \<mapsto>
                (run ready)\<lparr>written := written (run ready) @
                   [(0, frame \<lparr>req_id = Some 0, req_type = Cancel, req_expr = None\<rparr>)]\<rparr>)\<rparr>)
   \<and> cancelAllCellsExecution doc1 (new_world\<lparr>notebooks := [doc1 \<mapsto> new_RKernel]\<rparr>)
       = Inr (new_world\<lparr>notebooks := [doc1 \<mapsto> new_RKernel]\<rparr>)"
proof -
  have idle: "runState (code_cell ''1'') \<noteq> Some Running" by (simp add: code_cell_def)
  have running: "runState (cell_of 1 ''1'') = Some Running"
    and order: "executionOrder (cell_of 1 ''1'') = Some 1"
    by (simp_all add: cell_of_def)
  have none: "notebooks (new_world\<lparr>notebooks := [doc1 \<mapsto> new_RKernel]\<rparr>) doc1 = Some new_RKernel"
    "socket new_RKernel = None"
    by (simp_all add: new_RKernel_def)
  from cancel_forwarding[where cell = "code_cell ''1''" and key = doc1 and w = connected
                          and k = "run ready" and s = 0]
       cancel_forwarding[where cell = "cell_of 1 ''1''" and key = doc1 and w = connected
                          and k = "run ready" and s = 0]
       cancel_forwarding[where cell = "code_cell ''1''" and key = doc1
                          and w = "new_world\<lparr>notebooks := [doc1 \<mapsto> new_RKernel]\<rparr>"
                          and k = new_RKernel and s = 0]
       idle running order none connected_kernel ready_socket
  show ?thesis by simp
qed

text \<open>
  C8 as stated fails: the only cell of the document is not Running, and cancelling all
  cells still writes a cancel request to the socket of the document's kernel.
\<close>

theorem cancel_all_always_forwards:
  "map runState (documents connected doc1) = [None]
   \<and> (case cancelAllCellsExecution doc1 connected of
        Inl e \<Rightarrow> False
      | Inr w \<Rightarrow> map_option written (notebooks w doc1)
                  = Some [(0, frame \<lparr>req_id = Some 0, req_type = Cancel, req_expr = None\<rparr>)])"
  by code_simp

section \<open>Proofs: parsing what was saved\<close>

lemma slice_snoc:
  "a \<le> b \<Longrightarrow> b < length xs \<Longrightarrow> slice a (Suc b) xs = slice a b xs @ [xs ! b]"
  by (simp add: slice_def Suc_diff_le take_Suc_conv_app_nth)

lemma slice_same [simp]: "slice a a xs = []"
  by (simp add: slice_def)

lemma slice_one: "a < length xs \<Longrightarrow> slice a (Suc a) xs = [xs ! a]"
  using slice_snoc[of a a xs] by simp

lemma slice_empty_iff: "b \<le> length xs \<Longrightarrow> (slice a b xs = []) = (b \<le> a)"
  by (auto simp: slice_def)

lemma drop_last_line: "line < length lines \<Longrightarrow> (drop (Suc line) lines = []) = (line = length lines - 1)"
  by auto

lemma map_flush: "map block_cell (flush acc) = (if acc = [] then [] else [markdown_cell (join acc)])"
  by (simp add: flush_def)

lemma openNotebook_loop_done:
  "\<not> line < length lines \<Longrightarrow> openNotebook_loop lines line ct s0 cells = cells"
  by (simp add: openNotebook_loop.simps)

lemma openNotebook_loop_scan:
  "state_ok ct s0 line \<Longrightarrow> line \<le> length lines \<Longrightarrow>
   openNotebook_loop lines line ct s0 cells
     = cells @ map block_cell (scan (state_of ct s0 line lines) (drop line lines))"
proof (induction lines line ct s0 cells rule: openNotebook_loop.induct)
  case (1 lines line ct s0 cells)
  show ?case
  proof (cases "line < length lines")
    case False
    then show ?thesis using "1.prems" by (simp add: openNotebook_loop.simps)
  next
    case True
    then have d: "drop line lines = lines ! line # drop (Suc line) lines"
      by (simp add: Cons_nth_drop_Suc)
    have le: "Suc line \<le> length lines" using True by simp
    show ?thesis
    proof (cases ct)
      case T_markdown
      with "1.prems" have sl: "s0 \<le> line" by (simp add: state_ok_def)
      have ne: "(slice s0 line lines = []) = (\<not> s0 < line)"
        using True by (auto simp: slice_empty_iff)
      show ?thesis
      proof (cases "startsWith (lines ! line) (js ''---'')")
        case y: True
        have "openNotebook_loop lines (line + 1) T_yaml line cells
               = cells @ map block_cell (scan (state_of T_yaml line (line + 1) lines) (drop (line + 1) lines))"
          using True T_markdown y le by (intro "1.IH"(1)) (simp_all add: state_ok_def)
        then show ?thesis using True T_markdown y d
          by (simp add: openNotebook_loop.simps[of lines line] state_of_def slice_one)
      next
        case ny: False
        show ?thesis
        proof (cases "startsWith (lines ! line) (js ''```{r'')")
          case r: True
          let ?cells = "if line > s0 then cells @ [markdown_cell (join (slice s0 line lines))] else cells"
          have "openNotebook_loop lines (line + 1) T_r line ?cells
               = ?cells @ map block_cell (scan (state_of T_r line (line + 1) lines) (drop (line + 1) lines))"
            using True T_markdown ny r le by (intro "1.IH"(2)) (simp_all add: state_ok_def)
          then show ?thesis using True T_markdown ny r d ne
            by (simp add: openNotebook_loop.simps[of lines line] state_of_def map_flush)
        next
          case nr: False
          show ?thesis
          proof (cases "line = length lines - 1")
            case l: True
            let ?cells = "if line > s0 then cells @ [markdown_cell (join (slice s0 line lines))] else cells"
            have dl: "drop (Suc line) lines = []" using l True by simp
            have "\<not> line + 1 < length lines" using l True by simp
            then have "openNotebook_loop lines (line + 1) T_markdown s0 ?cells = ?cells"
              by (rule openNotebook_loop_done)
            moreover have "openNotebook_loop lines line T_markdown s0 cells
                = openNotebook_loop lines (line + 1) T_markdown s0 ?cells"
              using True ny nr l[symmetric]
              by (subst openNotebook_loop.simps) (simp del: One_nat_def)
            ultimately show ?thesis using T_markdown ny nr d ne dl
              by (simp add: state_of_def map_flush)
          next
            case nl: False
            have dl: "drop (Suc line) lines \<noteq> []" using nl True by simp
            have "openNotebook_loop lines (line + 1) T_markdown s0 cells
               = cells @ map block_cell (scan (state_of T_markdown s0 (line + 1) lines) (drop (line + 1) lines))"
              using True T_markdown ny nr nl le sl by (intro "1.IH"(4)) (simp_all add: state_ok_def)
            then show ?thesis using True T_markdown ny nr nl d dl sl
              by (simp add: openNotebook_loop.simps[of lines line] state_of_def slice_snoc)
          qed
        qed
      qed
    next
      case T_yaml
      with "1.prems" have sl: "s0 < line" by (simp add: state_ok_def)
      show ?thesis
      proof (cases "startsWith (lines ! line) (js ''---'')")
        case y: True
        let ?cells = "cells @ [yaml_cell (join (slice s0 (line + 1) lines))]"
        have "openNotebook_loop lines (line + 1) T_markdown (line + 1) ?cells
               = ?cells @ map block_cell (scan (state_of T_markdown (line + 1) (line + 1) lines) (drop (line + 1) lines))"
          using True T_yaml y le by (intro "1.IH"(5)) (simp_all add: state_ok_def)
        then show ?thesis using True T_yaml y d sl
          by (simp add: openNotebook_loop.simps[of lines line] state_of_def slice_snoc)
      next
        case ny: False
        have "openNotebook_loop lines (line + 1) T_yaml s0 cells
               = cells @ map block_cell (scan (state_of T_yaml s0 (line + 1) lines) (drop (line + 1) lines))"
          using True T_yaml ny le sl by (intro "1.IH"(6)) (simp_all add: state_ok_def)
        then show ?thesis using True T_yaml ny d sl
          by (simp add: openNotebook_loop.simps[of lines line] state_of_def slice_snoc)
      qed
    next
      case T_r
      with "1.prems" have sl: "s0 < line" by (simp add: state_ok_def)
      show ?thesis
      proof (cases "startsWith (lines ! line) (js ''```'')")
        case f: True
        let ?cells = "cells @ [r_cell (join (slice (s0 + 1) line lines)) (lines ! s0) (lines ! line)]"
        have "openNotebook_loop lines (line + 1) T_markdown (line + 1) ?cells
               = ?cells @ map block_cell (scan (state_of T_markdown (line + 1) (line + 1) lines) (drop (line + 1) lines))"
          using True T_r f le by (intro "1.IH"(7)) (simp_all add: state_ok_def)
        then show ?thesis using True T_r f d sl
          by (simp add: openNotebook_loop.simps[of lines line] state_of_def)
      next
        case nf: False
        have "openNotebook_loop lines (line + 1) T_r s0 cells
               = cells @ map block_cell (scan (state_of T_r s0 (line + 1) lines) (drop (line + 1) lines))"
          using True T_r nf le sl by (intro "1.IH"(8)) (simp_all add: state_ok_def)
        then show ?thesis using True T_r nf d sl
          by (simp add: openNotebook_loop.simps[of lines line] state_of_def slice_snoc)
      qed
    qed
  qed
qed

lemma openNotebook_scan:
  "openNotebook content = map block_cell (scan (In_md []) (split_lines content))"
  using openNotebook_loop_scan[of T_markdown 0 0 "split_lines content" "[]"]
  by (simp add: openNotebook_def state_ok_def state_of_def)

lemma good_Nil [simp]: "good []"
  by (simp add: good_def)

lemma good_Cons: "good (c # l) \<Longrightarrow> good l"
  by (auto simp: good_def)

lemma split_lines_line: "good l \<Longrightarrow> split_lines (l @ LF # rest) = l # split_lines rest"
proof (induction l)
  case Nil
  show ?case by (cases rest) (simp_all add: LF_def CR_def)
next
  case (Cons c l)
  from Cons.prems have c: "c \<noteq> LF" by (auto simp: good_def)
  obtain d cs where dc: "l @ LF # rest = d # cs" by (cases "l @ LF # rest") auto
  have nsep: "\<not> (c = CR \<and> d = LF)"
  proof
    assume a: "c = CR \<and> d = LF"
    show False
    proof (cases l)
      case Nil
      with a Cons.prems show False by (simp add: good_def)
    next
      case (Cons e l')
      with dc a have "e = LF" by simp
      with Cons Cons.prems show False by (simp add: good_def)
    qed
  qed
  have "split_lines (c # d # cs) = cons_first c (split_lines (d # cs))"
    using c nsep by auto
  also have "split_lines (d # cs) = l # split_lines rest"
    unfolding dc[symmetric] using Cons.prems by (intro Cons.IH) (rule good_Cons)
  finally show ?case by (simp add: dc cons_first_def)
qed

lemma split_lines_join:
  "ls \<noteq> [] \<Longrightarrow> list_all good ls \<Longrightarrow> split_lines (join ls @ LF # rest) = ls @ split_lines rest"
proof (induction ls rule: join.induct)
  case 1
  then show ?case by simp
next
  case (2 l)
  then show ?case by (simp add: split_lines_line)
next
  case (3 l m ls)
  have "split_lines ((l @ LF # join (m # ls)) @ LF # rest)
         = split_lines (l @ LF # (join (m # ls) @ LF # rest))" by simp
  also have "\<dots> = l # split_lines (join (m # ls) @ LF # rest)"
    using "3.prems" by (intro split_lines_line) simp
  also have "split_lines (join (m # ls) @ LF # rest) = (m # ls) @ split_lines rest"
    using "3.prems" by (intro "3.IH") simp_all
  finally show ?case by simp
qed

lemma split_lines_nonempty [simp]: "split_lines t \<noteq> []"
  by (induction t rule: split_lines.induct) (auto simp: cons_first_def split: list.splits)

lemma split_lines_no_LF: "\<forall>l \<in> set (split_lines t). LF \<notin> set l"
proof (induction t rule: split_lines.induct)
  case 1
  show ?case by simp
next
  case (2 c)
  show ?case by auto
next
  case (3 c d cs)
  show ?case
  proof (cases "c = CR \<and> d = LF")
    case True
    with 3 show ?thesis by simp
  next
    case False
    show ?thesis
    proof (cases "c = LF")
      case True
      with False 3 show ?thesis by simp
    next
      case nl: False
      with False 3 have ih: "\<forall>l \<in> set (split_lines (d # cs)). LF \<notin> set l" by simp
      obtain l ls where s: "split_lines (d # cs) = l # ls"
        by (cases "split_lines (d # cs)") (use split_lines_nonempty[of "d # cs"] in auto)
      from False nl ih show ?thesis by (auto simp: s cons_first_def)
    qed
  qed
qed

lemma fence_not_dashes: "startsWith h (js ''```{r'') \<Longrightarrow> \<not> startsWith h (js ''---'')"
proof
  assume "startsWith h (js ''```{r'')" and "startsWith h (js ''---'')"
  then have a: "take 5 h = js ''```{r''" and b: "take 3 h = js ''---''"
    by (simp_all add: startsWith_def js_def eval_nat_numeral)
  from a have "take 1 (take 5 h) = take 1 (js ''```{r'')" by simp
  then have "take 1 h = [0x60]" by (simp add: js_def)
  moreover from b have "take 1 (take 3 h) = take 1 (js ''---'')" by simp
  then have "take 1 h = [0x2D]" by (simp add: js_def)
  ultimately show False by simp
qed

lemma startsR_fence: "startsWith h (js ''```{r'') \<Longrightarrow> fence h"
proof -
  assume "startsWith h (js ''```{r'')"
  then have "take 5 h = js ''```{r''" by (simp add: startsWith_def js_def eval_nat_numeral)
  then have "take 3 (take 5 h) = take 3 (js ''```{r'')" by simp
  then have "take 3 h = js ''```''" by (simp add: js_def)
  then show ?thesis by (simp add: fence_def startsWith_def js_def eval_nat_numeral)
qed

lemma plain_Nil [simp]: "plain []" "\<not> fence []"
  by (simp_all add: plain_def fence_def startsWith_def js_def)

lemma scan_plain:
  "list_all plain ps \<Longrightarrow> ls \<noteq> [] \<Longrightarrow> scan (In_md a) (ps @ ls) = scan (In_md (a @ ps)) ls"
  by (induction ps arbitrary: a) (simp_all add: plain_def)

lemma scan_body:
  "list_all (\<lambda>l. \<not> fence l) bs \<Longrightarrow> scan (In_r h a) (bs @ ls) = scan (In_r h (a @ bs)) ls"
  by (induction bs arbitrary: a) (simp_all add: fence_def)

lemma scan_header:
  "startsWith h (js ''```{r'') \<Longrightarrow> scan (In_md a) (h # X) = flush a @ scan (In_r h []) X"
  by (simp add: fence_not_dashes)

lemma scan_RB:
  assumes "startsWith h (js ''```{r'')" "list_all (\<lambda>l. \<not> fence l) b" "fence f"
  shows "scan (In_md a) (linesB (RB h b f) @ X)
           = flush a @ RB h (if b = [] then [[]] else b) f # scan (In_md []) X"
proof -
  let ?b = "if b = [] then [[]] else b"
  have nb: "list_all (\<lambda>l. \<not> fence l) ?b" using assms(2) by simp
  have "scan (In_md a) (linesB (RB h b f) @ X) = flush a @ scan (In_r h []) (?b @ f # X)"
    using scan_header[OF assms(1)] by simp
  also have "scan (In_r h []) (?b @ f # X) = scan (In_r h ([] @ ?b)) (f # X)"
    using nb by (rule scan_body)
  also have "\<dots> = RB h ?b f # scan (In_md []) X"
    using assms(3) by (simp add: fence_def)
  finally show ?thesis .
qed

lemma rescan:
  "wfB bs \<Longrightarrow> scan (In_md []) (concat (map linesB bs) @ [[]]) = map normB bs"
proof (induction bs rule: wfB.induct)
  case 1
  show ?case using plain_Nil by (simp add: flush_def plain_def)
next
  case (2 a bs)
  from "2.prems" have a: "a \<noteq> []" "list_all plain a" and wf: "wfB bs"
    and nx: "bs = [] \<or> is_RB (hd bs)" by simp_all
  have "scan (In_md []) (concat (map linesB (MdB a # bs)) @ [[]])
          = scan (In_md ([] @ a)) (concat (map linesB bs) @ [[]])"
    using a(2) by (simp add: scan_plain)
  also have "\<dots> = MdB a # map normB bs"
  proof (cases bs)
    case Nil
    then show ?thesis using a(1) plain_Nil by (simp add: flush_def plain_def)
  next
    case (Cons b bs')
    with nx obtain h body f where b: "b = RB h body f" by (cases b) auto
    from wf Cons b have h: "startsWith h (js ''```{r'')" "list_all (\<lambda>l. \<not> fence l) body" "fence f"
      by simp_all
    have "scan (In_md a) (linesB (RB h body f) @ (concat (map linesB bs') @ [[]]))
            = flush a @ RB h (if body = [] then [[]] else body) f
                # scan (In_md []) (concat (map linesB bs') @ [[]])"
      using h by (rule scan_RB)
    moreover have "scan (In_md []) (linesB (RB h body f) @ (concat (map linesB bs') @ [[]]))
            = flush [] @ RB h (if body = [] then [[]] else body) f
                # scan (In_md []) (concat (map linesB bs') @ [[]])"
      using h by (rule scan_RB)
    moreover have "scan (In_md []) (concat (map linesB bs) @ [[]]) = map normB bs"
      using wf by (rule "2.IH")
    ultimately show ?thesis using a(1) Cons b by (simp add: flush_def)
  qed
  finally show ?case by simp
next
  case (3 h b f bs)
  from "3.prems" have h: "startsWith h (js ''```{r'')" "list_all (\<lambda>l. \<not> fence l) b" "fence f"
    and wf: "wfB bs" by simp_all
  have "scan (In_md []) (linesB (RB h b f) @ (concat (map linesB bs) @ [[]]))
          = flush [] @ RB h (if b = [] then [[]] else b) f
              # scan (In_md []) (concat (map linesB bs) @ [[]])"
    using h by (rule scan_RB)
  then show ?case using "3.IH"[OF wf] by (simp add: flush_def)
next
  case (4 a bs)
  then show ?case by simp
qed

lemma ok_from_Nil [simp]: "ok_from st []"
  by (cases st) simp_all

lemma wfB_flush:
  "list_all plain a \<Longrightarrow> list_all good a \<Longrightarrow> X = [] \<or> (is_RB (hd X) \<and> wfB X) \<Longrightarrow>
   wfB (flush a @ X)"
  by (auto simp: flush_def)

lemma scan_wf:
  "st_ok st \<Longrightarrow> list_all good L \<Longrightarrow> \<not> list_ex is_YB (scan st L) \<Longrightarrow> ok_from st (scan st L)"
proof (induction st L rule: scan.induct)
  case (1 st)
  show ?case by simp
next
  case (2 acc l ls)
  from "2.prems" have acc: "list_all plain acc" "list_all good acc"
    and l: "good l" and ls: "list_all good ls" by simp_all
  show ?case
  proof (cases "startsWith l (js ''---'')")
    case True
    with "2.prems" have "\<not> list_ex is_YB (scan (In_yaml [l]) ls)" by simp
    with "2.IH"(1)[OF True] ls have "scan (In_yaml [l]) ls = []" by simp
    with True show ?thesis by simp
  next
    case ny: False
    show ?thesis
    proof (cases "startsWith l (js ''```{r'')")
      case True
      with ny "2.prems" have "\<not> list_ex is_YB (scan (In_r l []) ls)" by simp
      with "2.IH"(2)[OF ny True] True l ls
      have "scan (In_r l []) ls = [] \<or> (is_RB (hd (scan (In_r l []) ls)) \<and> wfB (scan (In_r l []) ls))"
        by simp
      with acc have "wfB (flush acc @ scan (In_r l []) ls)" by (rule wfB_flush)
      with ny True show ?thesis by simp
    next
      case nr: False
      show ?thesis
      proof (cases "ls = []")
        case True
        have "wfB (flush acc @ [])" using acc by (intro wfB_flush) simp_all
        with ny nr True show ?thesis by simp
      next
        case False
        from ny nr False "2.prems" have "\<not> list_ex is_YB (scan (In_md (acc @ [l])) ls)" by simp
        moreover have "st_ok (In_md (acc @ [l]))" using acc l ny nr by (simp add: plain_def)
        ultimately have "ok_from (In_md (acc @ [l])) (scan (In_md (acc @ [l])) ls)"
          using "2.IH"(3)[OF ny nr False] ls by simp
        with ny nr False show ?thesis by simp
      qed
    qed
  qed
next
  case (3 acc l ls)
  from "3.prems" have ls: "list_all good ls" by simp
  show ?case
  proof (cases "startsWith l (js ''---'')")
    case True
    with "3.prems" show ?thesis by simp
  next
    case False
    with "3.prems" have "\<not> list_ex is_YB (scan (In_yaml (acc @ [l])) ls)" by simp
    with "3.IH"(2)[OF False] ls have "scan (In_yaml (acc @ [l])) ls = []" by simp
    with False show ?thesis by simp
  qed
next
  case (4 h acc l ls)
  from "4.prems" have h: "startsWith h (js ''```{r'')" "good h"
    and acc: "list_all (\<lambda>l. \<not> fence l) acc" "list_all good acc"
    and l: "good l" and ls: "list_all good ls" by simp_all
  show ?case
  proof (cases "startsWith l (js ''```'')")
    case True
    with "4.prems" have "\<not> list_ex is_YB (scan (In_md []) ls)" by simp
    with "4.IH"(1)[OF True] ls have "wfB (scan (In_md []) ls)" by simp
    with True h acc l show ?thesis by (simp add: fence_def)
  next
    case False
    with "4.prems" have "\<not> list_ex is_YB (scan (In_r h (acc @ [l])) ls)" by simp
    moreover have "st_ok (In_r h (acc @ [l]))" using h acc l False by (simp add: fence_def)
    ultimately have "ok_from (In_r h (acc @ [l])) (scan (In_r h (acc @ [l])) ls)"
      using "4.IH"(2)[OF False] ls by simp
    with False show ?thesis by simp
  qed
qed

lemma cell_text_markdown [simp]: "cell_text (markdown_cell s) = s @ [LF]"
  by (simp add: cell_text_def markdown_cell_def)

lemma cell_text_r [simp]: "cell_text (r_cell s h f) = h @ [LF] @ s @ [LF] @ f @ [LF]"
  by (simp add: cell_text_def r_cell_def)

lemma save_split:
  "wfB bs \<Longrightarrow>
   split_lines (concat (map cell_text (map block_cell bs)) @ t)
     = concat (map linesB bs) @ split_lines t"
proof (induction bs rule: wfB.induct)
  case 1
  show ?case by simp
next
  case (2 a bs)
  from "2.prems" have a: "a \<noteq> []" "list_all good a" and wf: "wfB bs" by simp_all
  have "split_lines (join a @ LF # (concat (map cell_text (map block_cell bs)) @ t))
          = a @ split_lines (concat (map cell_text (map block_cell bs)) @ t)"
    using a by (rule split_lines_join)
  with "2.IH"[OF wf] show ?case by simp
next
  case (3 h b f bs)
  from "3.prems" have h: "good h" and b: "list_all good b" and f: "good f" and wf: "wfB bs"
    by simp_all
  let ?rest = "concat (map cell_text (map block_cell bs)) @ t"
  have 1: "split_lines (h @ LF # (join b @ LF # (f @ LF # ?rest)))
             = h # split_lines (join b @ LF # (f @ LF # ?rest))"
    using h by (rule split_lines_line)
  have 2: "split_lines (join b @ LF # (f @ LF # ?rest))
             = (if b = [] then [[]] else b) @ split_lines (f @ LF # ?rest)"
  proof (cases "b = []")
    case True
    have "split_lines ([] @ LF # (f @ LF # ?rest)) = [] # split_lines (f @ LF # ?rest)"
      by (rule split_lines_line) simp
    with True show ?thesis by simp
  next
    case False
    with split_lines_join[OF False b] show ?thesis by simp
  qed
  have 3: "split_lines (f @ LF # ?rest) = f # split_lines ?rest"
    using f by (rule split_lines_line)
  from 1 2 3 "3.IH"[OF wf] show ?case by simp
next
  case (4 a bs)
  then show ?case by simp
qed

lemma block_cell_normB [simp]: "block_cell (normB b) = block_cell b"
  by (cases b) simp_all

lemma yaml_language:
  "language (block_cell b) = js ''yaml'' \<longleftrightarrow> is_YB b"
  by (cases b) (simp_all add: markdown_cell_def yaml_cell_def r_cell_def js_def)

lemma reparse_idempotent:
  assumes cr: "\<forall>l \<in> set (split_lines content). l = [] \<or> last l \<noteq> CR"
    and yaml: "\<forall>c \<in> set (openNotebook content). language c \<noteq> js ''yaml''"
  shows "save False (openNotebook content) = Some (concat (map cell_text (openNotebook content)))
         \<and> openNotebook (concat (map cell_text (openNotebook content))) = openNotebook content"
proof -
  define bs where "bs = scan (In_md []) (split_lines content)"
  have cells: "openNotebook content = map block_cell bs"
    by (simp add: bs_def openNotebook_scan)
  have good: "list_all good (split_lines content)"
    using cr split_lines_no_LF[of content] by (auto simp: list_all_iff good_def)
  have ny: "\<not> list_ex is_YB bs"
    using yaml by (auto simp: cells list_ex_iff yaml_language)
  have "ok_from (In_md []) (scan (In_md []) (split_lines content))"
    using good ny[unfolded bs_def] by (intro scan_wf) simp_all
  then have wf: "wfB bs" by (simp add: bs_def)
  have "split_lines (concat (map cell_text (map block_cell bs)) @ [])
          = concat (map linesB bs) @ split_lines []"
    using wf by (rule save_split)
  then have lines: "split_lines (concat (map cell_text (openNotebook content)))
          = concat (map linesB bs) @ [[]]"
    by (simp add: cells)
  have "openNotebook (concat (map cell_text (openNotebook content)))
          = map block_cell (scan (In_md []) (concat (map linesB bs) @ [[]]))"
    by (subst openNotebook_scan) (simp only: lines)
  also have "\<dots> = map block_cell (map normB bs)"
    using wf by (simp add: rescan)
  also have "\<dots> = openNotebook content"
    by (simp add: cells comp_def)
  finally show ?thesis by (simp add: save_def)
qed

lemma parse_composed:
  assumes "wfB bs"
  shows "openNotebook (concat (map cell_text (map block_cell bs))) = map block_cell bs"
proof -
  have "split_lines (concat (map cell_text (map block_cell bs)) @ [])
          = concat (map linesB bs) @ split_lines []"
    using assms by (rule save_split)
  then have lines: "split_lines (concat (map cell_text (map block_cell bs)))
          = concat (map linesB bs) @ [[]]"
    by simp
  have "openNotebook (concat (map cell_text (map block_cell bs)))
          = map block_cell (scan (In_md []) (concat (map linesB bs) @ [[]]))"
    by (subst openNotebook_scan) (simp only: lines)
  also have "\<dots> = map block_cell (map normB bs)"
    using assms by (simp add: rescan)
  finally show ?thesis by (simp add: comp_def)
qed

text \<open>
  C4. The claim is that for every well-formed document, with front matter, parsing the
  serialization of the parse gives the cells of the first parse, and that the remaining
  markdown lines are flushed as a last cell at the end of the input. In the code, \<open>save\<close>
  writes two line feeds after a front-matter cell, although the cell holds the whole
  front matter with its closing line, while it writes back a markdown cell and a code
  cell exactly as they were read. For the document of front matter, the markdown line
  \<open>Hi\<close> and one code block, the saved text has an empty line after the front matter, the
  second parse has a markdown cell of two lines, an empty one and \<open>Hi\<close>, where the
  first has the one line \<open>Hi\<close>, and a second save adds one more empty line. And for the two markdown lines \<open>Hi\<close> and \<open>Bye\<close> with
  no line feed at the end, the last line is never flushed: the parse is the one cell
  \<open>Hi\<close> and the saved text has lost \<open>Bye\<close>.
\<close>

theorem front_matter_grows_on_save:
  "openNotebook yaml_doc
     = [yaml_cell (js ''---'' @ [LF] @ js ''t: x'' @ [LF] @ js ''---''), markdown_cell (js ''Hi''),
        r_cell (js ''1'') (js ''```{r a}'') (js ''```'')]
   \<and> save False (openNotebook yaml_doc)
       = Some (js ''---'' @ [LF] @ js ''t: x'' @ [LF] @ js ''---'' @ [LF, LF] @ js ''Hi'' @ [LF]
               @ js ''```{r a}'' @ [LF] @ js ''1'' @ [LF] @ js ''```'' @ [LF])
   \<and> map_option openNotebook (save False (openNotebook yaml_doc))
       = Some [yaml_cell (js ''---'' @ [LF] @ js ''t: x'' @ [LF] @ js ''---''),
               markdown_cell ([LF] @ js ''Hi''), r_cell (js ''1'') (js ''```{r a}'') (js ''```'')]
   \<and> map_option openNotebook (save False (openNotebook yaml_doc)) \<noteq> Some (openNotebook yaml_doc)
   \<and> map_option (\<lambda>c. map source (openNotebook c))
         (case map_option openNotebook (save False (openNotebook yaml_doc)) of
            None \<Rightarrow> None
          | Some cells \<Rightarrow> save False cells)
       = Some [js ''---'' @ [LF] @ js ''t: x'' @ [LF] @ js ''---'', [LF, LF] @ js ''Hi'', js ''1'']
   \<and> openNotebook bye_doc = [markdown_cell (js ''Hi'')]
   \<and> save False (openNotebook bye_doc) = Some (js ''Hi'' @ [LF])"
  by code_simp

end
